theory Spec2Isabelle
  imports Main "HOL-Library.Word"
begin

section \<open>Buffered file reader over a block driver (Mcucpp, filesystem/src/file.cpp)\<close>

subsection \<open>Machine types\<close>

text \<open>
  Modelled from the spec: the headers that declare the integer types (fscommon.h, file.h)
  are not part of the source tree. File offsets (\<open>TFileSize\<close>) are 64-bit unsigned, as
  the spec's data model says; node handles, \<open>size_t\<close>, \<open>uint32_t\<close> and the unsigned
  members of the class (block size, position in buffer, block in chunk) are 32-bit
  unsigned. Arithmetic on them wraps around, as \<open>'a word\<close> does.
\<close>

type_synonym byte = "8 word"
type_synonym FsNode = "32 word"
type_synonym TFileSize = "64 word"
type_synonym uint = "32 word"

text \<open>
  Modelled from the spec: the flag enumerators (their values are not in the source) form a
  bit set. \<open>_flags |= A | B\<close> is union, \<open>_flags &= ~A\<close> is removal and \<open>_flags & A\<close> is
  membership.
\<close>

datatype FileFlags =
  FileFlagEof | FileNotExists | FileOutOufMem | FileFlagBufferDirty | FileFlagWritable

text \<open>What goes wrong when the code touches memory it does not own.\<close>

datatype fault = OutOfBounds | NullPointer

subsection \<open>The block driver\<close>

text \<open>
  Modelled from the spec: the driver interface (ifsdriver.h) is not part of the source
  tree. The driver is a stateful object: its configuration (block size, chain topology),
  its storage (block address to the bytes of the block) and the log of the calls made on
  it, which lets a theorem say that an operation performed no driver call.
\<close>

datatype DriverCall =
    CallGetParameter
  | CallEndOfFile FsNode
  | CallGetBlocksPerNode FsNode
  | CallGetNextChunk FsNode
  | CallReadBlock FsNode
  | CallWriteBlock FsNode "byte list"

record IFsDriver =
  drvBlockSize :: uint
  drvEndOfFile :: "FsNode \<Rightarrow> bool"
  drvBlocksPerNode :: "FsNode \<Rightarrow> uint"
  drvNextChunk :: "FsNode \<Rightarrow> FsNode"
  drvStorage :: "FsNode \<Rightarrow> nat \<Rightarrow> byte"
  drvCalls :: "DriverCall list"

definition logCall :: "DriverCall \<Rightarrow> IFsDriver \<Rightarrow> IFsDriver" where
  "logCall c d = d\<lparr>drvCalls := drvCalls d @ [c]\<rparr>"

definition GetParameter :: "IFsDriver \<Rightarrow> uint \<times> IFsDriver" where
  "GetParameter d = (drvBlockSize d, logCall CallGetParameter d)"

definition Driver_EndOfFile :: "IFsDriver \<Rightarrow> FsNode \<Rightarrow> bool \<times> IFsDriver" where
  "Driver_EndOfFile d n = (drvEndOfFile d n, logCall (CallEndOfFile n) d)"

definition GetBlocksPerNode :: "IFsDriver \<Rightarrow> FsNode \<Rightarrow> uint \<times> IFsDriver" where
  "GetBlocksPerNode d n = (drvBlocksPerNode d n, logCall (CallGetBlocksPerNode n) d)"

definition GetNextChunk :: "IFsDriver \<Rightarrow> FsNode \<Rightarrow> FsNode \<times> IFsDriver" where
  "GetNextChunk d n = (drvNextChunk d n, logCall (CallGetNextChunk n) d)"

text \<open>
  \<open>ReadBlock(address, buffer)\<close> stores one block, \<open>drvBlockSize\<close> bytes, at the start of
  the caller's array; an array shorter than a block is overrun.
\<close>

definition ReadBlock :: "IFsDriver \<Rightarrow> FsNode \<Rightarrow> byte list \<Rightarrow> fault + (byte list \<times> IFsDriver)" where
  "ReadBlock d a buf =
     (let n = unat (drvBlockSize d) in
      if n \<le> length buf
      then Inr (map (drvStorage d a) [0..<n] @ drop n buf, logCall (CallReadBlock a) d)
      else Inl OutOfBounds)"

text \<open>\<open>WriteBlock(address, buffer)\<close> persists the first \<open>drvBlockSize\<close> bytes of the array.\<close>

definition WriteBlock :: "IFsDriver \<Rightarrow> FsNode \<Rightarrow> byte list \<Rightarrow> fault + IFsDriver" where
  "WriteBlock d a buf =
     (let n = unat (drvBlockSize d) in
      if n \<le> length buf
      then Inr (logCall (CallWriteBlock a (take n buf))
                  (d\<lparr>drvStorage := (drvStorage d)(a := (\<lambda>i. if i < n then buf ! i else drvStorage d a i))\<rparr>))
      else Inl OutOfBounds)"

subsection \<open>The file object\<close>

text \<open>
  The members of \<open>class File\<close>. \<open>blockBuffer\<close> is \<open>None\<close> for the null pointer and
  otherwise the allocated array. \<open>fsize\<close> is the member \<open>_size\<close>.
\<close>

record File =
  firstNode :: FsNode
  current :: FsNode
  blockBuffer :: "byte list option"
  flags :: "FileFlags set"
  positionInFile :: TFileSize
  fsize :: TFileSize
  blockInChunk :: uint
  blockSize :: uint
  positionInBuffer :: uint

text \<open>
  \<open>new (std::nothrow) uint8_t[_blockSize]\<close>: the argument \<open>mem\<close> is what the allocator
  does, \<open>None\<close> when it fails and otherwise the indeterminate contents of the new array.
\<close>

definition new_nothrow :: "(nat \<Rightarrow> byte) option \<Rightarrow> uint \<Rightarrow> byte list option" where
  "new_nothrow mem n = (case mem of None \<Rightarrow> None | Some g \<Rightarrow> Some (map g [0..<unat n]))"

text \<open>\<open>File::File(IFsDriver &driver)\<close>\<close>

definition File_ctor :: "IFsDriver \<Rightarrow> File \<times> IFsDriver" where
  "File_ctor d =
     (let (bs, d1) = GetParameter d in
      (\<lparr>firstNode = 0, current = 0, blockBuffer = None,
        flags = {FileFlagEof, FileNotExists}, positionInFile = - 1, fsize = 0,
        blockInChunk = 0, blockSize = bs, positionInBuffer = bs\<rparr>, d1))"

text \<open>\<open>File::File(IFsDriver &driver, FsNode node, TFileSize size)\<close>\<close>

definition File_ctor_node ::
  "IFsDriver \<Rightarrow> FsNode \<Rightarrow> TFileSize \<Rightarrow> (nat \<Rightarrow> byte) option \<Rightarrow> File \<times> IFsDriver" where
  "File_ctor_node d node sz mem =
     (let (bs, d1) = GetParameter d;
          buf = new_nothrow mem bs;
          fl0 = {};
          fl1 = (if buf = None then fl0 \<union> {FileOutOufMem, FileFlagEof} else fl0);
          fl2 = (if node = 0 then fl1 \<union> {FileFlagEof, FileNotExists} else fl1)
      in (\<lparr>firstNode = node, current = 0, blockBuffer = buf,
           flags = fl2, positionInFile = - 1, fsize = sz,
           blockInChunk = 0, blockSize = bs, positionInBuffer = bs\<rparr>, d1))"

text \<open>
  \<open>bool File::Open(const char *filePath)\<close>.
  Modelled from the spec: \<open>FindNodeLister\<close> is not part of the source tree; the argument
  \<open>resolve\<close> is the path resolver, which maps a path to a node and a size and gives the
  null node when the path is not found.
\<close>

definition Open ::
  "File \<Rightarrow> IFsDriver \<Rightarrow> (string \<Rightarrow> FsNode \<times> TFileSize) \<Rightarrow> (nat \<Rightarrow> byte) option \<Rightarrow> string
     \<Rightarrow> bool \<times> File \<times> IFsDriver" where
  "Open f d resolve mem filePath =
     (let (bs, d1) = GetParameter d;
          f1 = f\<lparr>blockSize := bs\<rparr>;
          f2 = (if blockBuffer f1 = None then f1\<lparr>blockBuffer := new_nothrow mem bs\<rparr> else f1);
          f3 = f2\<lparr>positionInBuffer := blockSize f2\<rparr>
      in if blockBuffer f3 = None
         then (False, f3\<lparr>flags := flags f3 \<union> {FileOutOufMem, FileFlagEof}\<rparr>, d1)
         else
           (let (node, sz) = resolve filePath;
                f4 = f3\<lparr>firstNode := node, fsize := sz\<rparr>
            in if firstNode f4 = 0
               then (False, f4\<lparr>flags := flags f4 \<union> {FileFlagEof, FileNotExists}\<rparr>, d1)
               else (True, f4, d1)))"

text \<open>
  \<open>File::File(IFsDriver &driver, const char *filePath)\<close>. The constructor leaves
  \<open>_firstNode\<close>, \<open>_blockBuffer\<close>, \<open>_blockSize\<close> and \<open>_positionInBuffer\<close> without an
  initialiser; the arguments \<open>node0\<close>, \<open>buf0\<close> and \<open>n0\<close> are their indeterminate values.
\<close>

definition File_ctor_path ::
  "IFsDriver \<Rightarrow> (string \<Rightarrow> FsNode \<times> TFileSize) \<Rightarrow> (nat \<Rightarrow> byte) option \<Rightarrow> string
     \<Rightarrow> FsNode \<Rightarrow> byte list option \<Rightarrow> uint \<Rightarrow> File \<times> IFsDriver" where
  "File_ctor_path d resolve mem filePath node0 buf0 n0 =
     (let f0 = \<lparr>firstNode = node0, current = 0, blockBuffer = buf0,
                flags = {FileNotExists}, positionInFile = - 1, fsize = 0,
                blockInChunk = 0, blockSize = n0, positionInBuffer = n0\<rparr>;
          (ok, f1, d1) = Open f0 d resolve mem filePath
      in (f1, d1))"

text \<open>\<open>void File::Flush()\<close>. It changes no member, so it returns the driver only.\<close>

definition Flush :: "File \<Rightarrow> IFsDriver \<Rightarrow> fault + IFsDriver" where
  "Flush f d =
     (case blockBuffer f of
        None \<Rightarrow> Inr d
      | Some buf \<Rightarrow>
          if current f \<noteq> 0
          then (let (eof, d1) = Driver_EndOfFile d (current f) in
                if eof \<and> FileFlagBufferDirty \<in> flags f \<and> FileFlagWritable \<in> flags f
                then WriteBlock d1 (current f + blockInChunk f) buf
                else Inr d1)
          else Inr d)"

text \<open>\<open>File::~File()\<close>: flush, then release the buffer.\<close>

definition File_dtor :: "File \<Rightarrow> IFsDriver \<Rightarrow> fault + (File \<times> IFsDriver)" where
  "File_dtor f d =
     (case Flush f d of
        Inl e \<Rightarrow> Inl e
      | Inr d1 \<Rightarrow> Inr (if blockBuffer f \<noteq> None then f\<lparr>blockBuffer := None\<rparr> else f, d1))"

text \<open>\<open>bool File::EndOfFile()\<close>\<close>

definition EndOfFile :: "File \<Rightarrow> bool" where
  "EndOfFile f = (FileFlagEof \<in> flags f)"

text \<open>\<open>bool File::Write(uint8_t value)\<close>: the guarded block is empty.\<close>

definition Write :: "File \<Rightarrow> byte \<Rightarrow> bool \<times> File" where
  "Write f v = (if FileFlagWritable \<in> flags f then (False, f) else (False, f))"

subsection \<open>Single-byte read\<close>

text \<open>
  Lines 180 to 185 of \<open>uint8_t File::Read()\<close>: take the byte under the cursor, advance
  the cursor, and raise the end-of-file flag when the position reaches the size.
\<close>

definition Read_byte :: "File \<Rightarrow> IFsDriver \<Rightarrow> fault + (byte \<times> File \<times> IFsDriver)" where
  "Read_byte f d =
     (case blockBuffer f of
        None \<Rightarrow> Inl NullPointer
      | Some buf \<Rightarrow>
          if unat (positionInBuffer f) < length buf
          then (let res = buf ! unat (positionInBuffer f);
                    f1 = f\<lparr>positionInBuffer := positionInBuffer f + 1\<rparr>;
                    f2 = (if ucast (positionInBuffer f1) + positionInFile f1 \<ge> fsize f1
                          then f1\<lparr>flags := flags f1 \<union> {FileFlagEof}\<rparr> else f1)
                in Inr (res, f2, d))
          else Inl OutOfBounds)"

text \<open>Lines 176 and 177: load the block under the cursor and rewind the buffer position.\<close>

definition Read_load :: "File \<Rightarrow> IFsDriver \<Rightarrow> fault + (File \<times> IFsDriver)" where
  "Read_load f d =
     (case blockBuffer f of
        None \<Rightarrow> Inl NullPointer
      | Some buf \<Rightarrow>
          (case ReadBlock d (current f + blockInChunk f) buf of
             Inl e \<Rightarrow> Inl e
           | Inr (buf1, d1) \<Rightarrow> Inr (f\<lparr>blockBuffer := Some buf1, positionInBuffer := 0\<rparr>, d1)))"

definition Read_fetch :: "File \<Rightarrow> IFsDriver \<Rightarrow> fault + (byte \<times> File \<times> IFsDriver)" where
  "Read_fetch f d =
     (case Read_load f d of Inl e \<Rightarrow> Inl e | Inr (f1, d1) \<Rightarrow> Read_byte f1 d1)"

text \<open>\<open>uint8_t File::Read()\<close>\<close>

definition Read :: "File \<Rightarrow> IFsDriver \<Rightarrow> fault + (byte \<times> File \<times> IFsDriver)" where
  "Read f d =
     (if positionInBuffer f \<ge> blockSize f
      then
        (if blockBuffer f = None then Inr (0, f, d)
         else if current f = 0
         then Read_fetch (f\<lparr>current := firstNode f, positionInFile := 0\<rparr>) d
         else
           (let (eof, d1) = Driver_EndOfFile d (current f) in
            if eof then Inr (0, f, d1)
            else
              (case Flush f d1 of
                 Inl e \<Rightarrow> Inl e
               | Inr d2 \<Rightarrow>
                   (let f1 = f\<lparr>blockInChunk := blockInChunk f + 1\<rparr>;
                        (bpn, d3) = GetBlocksPerNode d2 (current f1)
                    in if blockInChunk f1 \<ge> bpn
                       then
                         (let (next, d4) = GetNextChunk d3 (current f1);
                              f2 = f1\<lparr>blockInChunk := 0\<rparr>;
                              (eof2, d5) = Driver_EndOfFile d4 next
                          in if eof2
                             then Inr (0, f2\<lparr>flags := flags f2 \<union> {FileFlagEof}\<rparr>, d5)
                             else
                               (let f3 = f2\<lparr>flags := flags f2 - {FileFlagEof}\<rparr>;
                                    f4 = f3\<lparr>current := next\<rparr>;
                                    f5 = f4\<lparr>positionInFile :=
                                              positionInFile f4 + ucast (blockSize f4)\<rparr>
                                in Read_fetch f5 d5))
                       else
                         Read_fetch
                           (f1\<lparr>positionInFile := positionInFile f1 + ucast (blockSize f1)\<rparr>)
                           d3))))
      else Read_byte f d)"

subsection \<open>Bulk read\<close>

text \<open>
  \<open>size_t File::Read(void *buffer, size_t bytesToRead)\<close>. The destination is modelled by
  the list \<open>dest\<close> of the bytes stored in it so far; every \<open>memcpy\<close> stores at
  \<open>buffer + bytesRead\<close>, right behind them.

  \<open>memcpy(dest, &_blockBuffer[from], n)\<close>: the bytes read from the block buffer, when they
  lie inside it.
\<close>

definition memcpy_from :: "byte list \<Rightarrow> uint \<Rightarrow> uint \<Rightarrow> fault + byte list" where
  "memcpy_from buf from n =
     (if n = 0 then Inr []
      else if unat from + unat n \<le> length buf
      then Inr (take (unat n) (drop (unat from) buf))
      else Inl OutOfBounds)"

text \<open>Lines 195 to 209: what is left in the block buffer is copied first.\<close>

definition Read_bulk_first ::
  "File \<Rightarrow> byte list \<Rightarrow> uint \<Rightarrow> fault + (byte list \<times> uint \<times> File)" where
  "Read_bulk_first f buf bytesToRead =
     (let totalBytesAvailable =
            (if ucast (positionInBuffer f) + positionInFile f < fsize f
             then (ucast (fsize f - (ucast (positionInBuffer f) + positionInFile f)) :: uint)
             else 0);
          bytesInBuffer = blockSize f - positionInBuffer f;
          bytesRead0 = min bytesToRead bytesInBuffer;
          bytesRead = (if bytesRead0 > totalBytesAvailable then totalBytesAvailable else bytesRead0)
      in case memcpy_from buf (positionInBuffer f) bytesRead of
           Inl e \<Rightarrow> Inl e
         | Inr dest \<Rightarrow>
             Inr (dest, bytesRead, f\<lparr>positionInBuffer := positionInBuffer f + bytesRead\<rparr>))"

text \<open>
  Lines 214 to 241: move the cursor to the next block. The boolean is \<open>True\<close> when the
  loop is left by \<open>break\<close>.
\<close>

definition Read_bulk_advance :: "File \<Rightarrow> IFsDriver \<Rightarrow> fault + (bool \<times> File \<times> IFsDriver)" where
  "Read_bulk_advance f d =
     (if current f = 0
      then Inr (False, f\<lparr>current := firstNode f, positionInFile := 0\<rparr>, d)
      else
        (let (eof, d1) = Driver_EndOfFile d (current f) in
         if eof then Inr (True, f\<lparr>flags := flags f \<union> {FileFlagEof}\<rparr>, d1)
         else
           (case Flush f d1 of
              Inl e \<Rightarrow> Inl e
            | Inr d2 \<Rightarrow>
                (let f1 = f\<lparr>blockInChunk := blockInChunk f + 1\<rparr>;
                     (bpn, d3) = GetBlocksPerNode d2 (current f1)
                 in if blockInChunk f1 \<ge> bpn
                    then
                      (let (next, d4) = GetNextChunk d3 (current f1);
                           f2 = f1\<lparr>blockInChunk := 0\<rparr>;
                           (eof2, d5) = Driver_EndOfFile d4 next
                       in if eof2
                          then Inr (True, f2\<lparr>flags := flags f2 \<union> {FileFlagEof}\<rparr>, d5)
                          else
                            (let f3 = f2\<lparr>flags := flags f2 - {FileFlagEof}\<rparr>;
                                 f4 = f3\<lparr>current := next\<rparr>
                             in Inr (False,
                                  f4\<lparr>positionInFile := positionInFile f4 + ucast (blockSize f4)\<rparr>,
                                  d5)))
                    else
                      Inr (False,
                        f1\<lparr>positionInFile := positionInFile f1 + ucast (blockSize f1)\<rparr>,
                        d3)))))"

text \<open>Lines 242 to 257: load the block and copy its part of the request.\<close>

definition Read_bulk_copy ::
  "File \<Rightarrow> IFsDriver \<Rightarrow> byte list \<Rightarrow> uint \<Rightarrow> uint
     \<Rightarrow> fault + (byte list \<times> uint \<times> File \<times> IFsDriver)" where
  "Read_bulk_copy f d dest bytesRead bytesToRead =
     (case blockBuffer f of
        None \<Rightarrow> Inl NullPointer
      | Some buf \<Rightarrow>
          (case ReadBlock d (current f + blockInChunk f) buf of
             Inl e \<Rightarrow> Inl e
           | Inr (buf1, d1) \<Rightarrow>
               (let f1 = f\<lparr>blockBuffer := Some buf1\<rparr>;
                    totalBytesAvailable =
                      (if positionInFile f1 < fsize f1
                       then (ucast (fsize f1 - positionInFile f1) :: uint) else 0);
                    chunkSize0 = min (bytesToRead - bytesRead) (blockSize f1);
                    clipped = (chunkSize0 > totalBytesAvailable);
                    chunkSize = (if clipped then totalBytesAvailable else chunkSize0);
                    f2 = (if clipped then f1\<lparr>flags := flags f1 \<union> {FileFlagEof}\<rparr> else f1);
                    f3 = f2\<lparr>positionInBuffer := chunkSize\<rparr>
                in case memcpy_from buf1 0 chunkSize of
                     Inl e \<Rightarrow> Inl e
                   | Inr bytes \<Rightarrow> Inr (dest @ bytes, bytesRead + chunkSize, f3, d1))))"

text \<open>One turn of the loop; the boolean is \<open>True\<close> when it ends in \<open>break\<close>.\<close>

definition Read_bulk_body ::
  "File \<Rightarrow> IFsDriver \<Rightarrow> byte list \<Rightarrow> uint \<Rightarrow> uint
     \<Rightarrow> fault + (bool \<times> byte list \<times> uint \<times> File \<times> IFsDriver)" where
  "Read_bulk_body f d dest bytesRead bytesToRead =
     (case Read_bulk_advance f d of
        Inl e \<Rightarrow> Inl e
      | Inr (brk, f1, d1) \<Rightarrow>
          if brk then Inr (True, dest, bytesRead, f1, d1)
          else
            (case Read_bulk_copy f1 d1 dest bytesRead bytesToRead of
               Inl e \<Rightarrow> Inl e
             | Inr (dest1, bytesRead1, f2, d2) \<Rightarrow> Inr (False, dest1, bytesRead1, f2, d2)))"

text \<open>
  The \<open>while\<close> loop of lines 211 to 258. It need not end (a block size of 0 on a cyclic
  chain), so the result is an option and \<open>None\<close> stands for a loop that runs forever.
\<close>

partial_function (option) Read_bulk_loop ::
  "File \<Rightarrow> IFsDriver \<Rightarrow> byte list \<Rightarrow> uint \<Rightarrow> uint
     \<Rightarrow> (fault + (byte list \<times> uint \<times> File \<times> IFsDriver)) option" where
  [code]: "Read_bulk_loop f d dest bytesRead bytesToRead =
     (if bytesRead < bytesToRead \<and> ucast (positionInBuffer f) + positionInFile f < fsize f
      then
        (case Read_bulk_body f d dest bytesRead bytesToRead of
           Inl e \<Rightarrow> Some (Inl e)
         | Inr (brk, dest1, bytesRead1, f1, d1) \<Rightarrow>
             if brk then Some (Inr (dest1, bytesRead1, f1, d1))
             else Read_bulk_loop f1 d1 dest1 bytesRead1 bytesToRead)
      else Some (Inr (dest, bytesRead, f, d)))"

text \<open>Lines 260 to 263: the end-of-file flag is raised when the position reached the size.\<close>

definition Read_bulk_eof :: "File \<Rightarrow> File" where
  "Read_bulk_eof f =
     (if ucast (positionInBuffer f) + positionInFile f \<ge> fsize f
      then f\<lparr>flags := flags f \<union> {FileFlagEof}\<rparr> else f)"

text \<open>The bulk read gives the bytes stored at the destination and the count it returns.\<close>

definition Read_bulk ::
  "File \<Rightarrow> IFsDriver \<Rightarrow> uint \<Rightarrow> (fault + (byte list \<times> uint \<times> File \<times> IFsDriver)) option" where
  "Read_bulk f d bytesToRead =
     (case blockBuffer f of
        None \<Rightarrow> Some (Inr ([], 0, f, d))
      | Some buf \<Rightarrow>
          (case Read_bulk_first f buf bytesToRead of
             Inl e \<Rightarrow> Some (Inl e)
           | Inr (dest, bytesRead, f1) \<Rightarrow>
               (case Read_bulk_loop f1 d dest bytesRead bytesToRead of
                  None \<Rightarrow> None
                | Some (Inl e) \<Rightarrow> Some (Inl e)
                | Some (Inr (dest1, bytesRead1, f2, d2)) \<Rightarrow>
                    Some (Inr (dest1, bytesRead1, Read_bulk_eof f2, d2)))))"

subsection \<open>Seek\<close>

text \<open>
  One turn of the loop of lines 291 to 307 of \<open>bool File::Seek(TFileSize pos)\<close>; the
  boolean is \<open>True\<close> when the turn ends in \<open>return false\<close>.
\<close>

definition Seek_body :: "File \<Rightarrow> IFsDriver \<Rightarrow> bool \<times> File \<times> IFsDriver" where
  "Seek_body f d =
     (let (eof, d1) = Driver_EndOfFile d (current f) in
      if eof then (True, f, d1)
      else
        (let (bpn, d2) = GetBlocksPerNode d1 (current f);
             (f1, d3) =
               (if blockInChunk f \<ge> bpn
                then (let (next, d3) = GetNextChunk d2 (current f)
                      in (f\<lparr>current := next, blockInChunk := 0\<rparr>, d3))
                else (f, d2));
             (eof2, d4) = Driver_EndOfFile d3 (current f1)
         in if eof2 then (True, f1, d4)
            else (False, f1\<lparr>positionInFile := positionInFile f1 + ucast (blockSize f1)\<rparr>, d4)))"

text \<open>The loop itself; \<open>None\<close> stands for a loop that runs forever.\<close>

partial_function (option) Seek_loop ::
  "File \<Rightarrow> IFsDriver \<Rightarrow> TFileSize \<Rightarrow> (bool \<times> File \<times> IFsDriver) option" where
  [code]: "Seek_loop f d pos =
     (if pos > positionInFile f + ucast (blockSize f)
      then
        (case Seek_body f d of
           (failed, f1, d1) \<Rightarrow>
             if failed then Some (True, f1, d1) else Seek_loop f1 d1 pos)
      else Some (False, f, d))"

text \<open>
  The three ways out of \<open>Seek\<close>: line 280 (no buffer), lines 295 and 304 (the chain ended
  inside the loop) and line 312 (the end of the function).
\<close>

datatype SeekExit = SeekNoBuffer | SeekChainEnd | SeekDone

text \<open>The value of the \<open>return\<close> statement at each exit: all of them say \<open>false\<close>.\<close>

fun Seek_return :: "SeekExit \<Rightarrow> bool" where
  "Seek_return SeekNoBuffer = False"
| "Seek_return SeekChainEnd = False"
| "Seek_return SeekDone = False"

text \<open>\<open>Seek\<close> with the exit it took.\<close>

definition Seek_exit ::
  "File \<Rightarrow> IFsDriver \<Rightarrow> TFileSize \<Rightarrow> (fault + (SeekExit \<times> File \<times> IFsDriver)) option" where
  "Seek_exit f d pos =
     (case blockBuffer f of
        None \<Rightarrow> Some (Inr (SeekNoBuffer, f, d))
      | Some buf \<Rightarrow>
          if pos \<ge> positionInFile f + ucast (blockSize f) \<or> pos < positionInFile f
          then
            (let f1 = (if pos < positionInFile f
                       then f\<lparr>current := firstNode f, positionInFile := 0\<rparr> else f)
             in case Flush f1 d of
                  Inl e \<Rightarrow> Some (Inl e)
                | Inr d1 \<Rightarrow>
                    (case Seek_loop f1 d1 pos of
                       None \<Rightarrow> None
                     | Some (failed, f2, d2) \<Rightarrow>
                         if failed then Some (Inr (SeekChainEnd, f2, d2))
                         else
                           (case ReadBlock d2 (current f2 + blockInChunk f2) buf of
                              Inl e \<Rightarrow> Some (Inl e)
                            | Inr (buf1, d3) \<Rightarrow>
                                (let f3 = f2\<lparr>blockBuffer := Some buf1\<rparr>;
                                     f4 = f3\<lparr>positionInBuffer := ucast (pos - positionInFile f3)\<rparr>
                                 in Some (Inr (SeekDone,
                                      f4\<lparr>flags := flags f4 - {FileFlagEof}\<rparr>, d3))))))
          else
            (let f1 = f\<lparr>positionInBuffer := ucast (pos - positionInFile f)\<rparr>
             in Some (Inr (SeekDone, f1\<lparr>flags := flags f1 - {FileFlagEof}\<rparr>, d))))"

text \<open>\<open>bool File::Seek(TFileSize pos)\<close>\<close>

definition Seek ::
  "File \<Rightarrow> IFsDriver \<Rightarrow> TFileSize \<Rightarrow> (fault + (bool \<times> File \<times> IFsDriver)) option" where
  "Seek f d pos =
     (case Seek_exit f d pos of
        None \<Rightarrow> None
      | Some (Inl e) \<Rightarrow> Some (Inl e)
      | Some (Inr (x, f1, d1)) \<Rightarrow> Some (Inr (Seek_return x, f1, d1)))"

subsection \<open>Sequences of reads, and a file to run the code on\<close>

text \<open>\<open>n\<close> successive calls of the single-byte \<open>Read()\<close>, with the bytes they return.\<close>

fun Read_n :: "nat \<Rightarrow> File \<Rightarrow> IFsDriver \<Rightarrow> fault + (byte list \<times> File \<times> IFsDriver)" where
  "Read_n 0 f d = Inr ([], f, d)"
| "Read_n (Suc n) f d =
     (case Read f d of
        Inl e \<Rightarrow> Inl e
      | Inr (b, f1, d1) \<Rightarrow>
          (case Read_n n f1 d1 of
             Inl e \<Rightarrow> Inl e
           | Inr (bs, f2, d2) \<Rightarrow> Inr (b # bs, f2, d2)))"

text \<open>The byte that \<open>Seek(pos)\<close> followed by \<open>Read()\<close> returns.\<close>

definition Seek_Read :: "File \<Rightarrow> IFsDriver \<Rightarrow> TFileSize \<Rightarrow> byte option" where
  "Seek_Read f d pos =
     (case Seek f d pos of
        Some (Inr (r, f1, d1)) \<Rightarrow> (case Read f1 d1 of Inr (b, f2, d2) \<Rightarrow> Some b | Inl e \<Rightarrow> None)
      | _ \<Rightarrow> None)"

text \<open>
  A driver with blocks of 4 bytes and chunks of 2 blocks, holding a chain of the three
  nodes 2, 4 and 6. The byte at offset \<open>k\<close> of the chain is \<open>10 + k\<close>.
\<close>

definition demoDriver :: IFsDriver where
  "demoDriver =
     \<lparr>drvBlockSize = 4,
      drvEndOfFile = (\<lambda>n. n \<ge> 0xFFFFFFF8),
      drvBlocksPerNode = (\<lambda>n. 2),
      drvNextChunk = (\<lambda>n. if n = 2 then 4 else if n = 4 then 6 else 0xFFFFFFFF),
      drvStorage = (\<lambda>a i. of_nat (10 + 4 * (unat a - 2) + i)),
      drvCalls = []\<rparr>"

text \<open>A file of \<open>sz\<close> bytes on that chain, as the second constructor makes it.\<close>

definition demoFile :: "TFileSize \<Rightarrow> File" where
  "demoFile sz = fst (File_ctor_node demoDriver 2 sz (Some (\<lambda>i. 0)))"

definition demoDrv :: IFsDriver where
  "demoDrv = snd (File_ctor_node demoDriver 2 0 (Some (\<lambda>i. 0)))"

text \<open>The same file after \<open>n\<close> single-byte reads.\<close>

definition demoAfter :: "TFileSize \<Rightarrow> nat \<Rightarrow> File \<times> IFsDriver" where
  "demoAfter sz n =
     (case Read_n n (demoFile sz) demoDrv of
        Inr (bs, f, d) \<Rightarrow> (f, d)
      | Inl e \<Rightarrow> (demoFile sz, demoDrv))"

subsection \<open>Write-back\<close>

text \<open>The \<open>WriteBlock\<close> calls of a call log: address and data.\<close>

fun writeCalls :: "DriverCall list \<Rightarrow> (FsNode \<times> byte list) list" where
  "writeCalls [] = []"
| "writeCalls (CallWriteBlock a bs # cs) = (a, bs) # writeCalls cs"
| "writeCalls (c # cs) = writeCalls cs"

text \<open>
  What the spec says \<open>Flush\<close> writes: nothing without a buffer; otherwise the buffer, at
  \<open>currentNode + blockInChunk\<close>, when the current node is not null and is the terminal
  node of the chain, the buffer is dirty and the file is writable.
\<close>

definition Flush_spec :: "File \<Rightarrow> IFsDriver \<Rightarrow> (FsNode \<times> byte list) list" where
  "Flush_spec f d =
     (case blockBuffer f of
        None \<Rightarrow> []
      | Some buf \<Rightarrow>
          if current f \<noteq> 0 \<and> drvEndOfFile d (current f)
             \<and> FileFlagBufferDirty \<in> flags f \<and> FileFlagWritable \<in> flags f
          then [(current f + blockInChunk f, buf)] else [])"


text \<open>A driver that takes the null node for the end of a chain.\<close>

definition nullEndDrv :: IFsDriver where
  "nullEndDrv = demoDrv\<lparr>drvEndOfFile := (\<lambda>n. n = 0 \<or> n \<ge> 0xFFFFFFF8)\<rparr>"

subsection \<open>Sequences of operations\<close>

text \<open>
  The public operations on a constructed file, and a run of a list of them; a fault ends
  the run, and a loop that runs forever leaves it without a result.
\<close>

datatype Op =
    OpOpen "string \<Rightarrow> FsNode \<times> TFileSize" "(nat \<Rightarrow> byte) option" string
  | OpRead
  | OpReadBulk uint
  | OpWrite byte
  | OpSeek TFileSize
  | OpFlush

fun apply_op :: "Op \<Rightarrow> File \<Rightarrow> IFsDriver \<Rightarrow> (fault + (File \<times> IFsDriver)) option" where
  "apply_op (OpOpen resolve mem filePath) f d =
     (case Open f d resolve mem filePath of (ok, f1, d1) \<Rightarrow> Some (Inr (f1, d1)))"
| "apply_op OpRead f d =
     (case Read f d of Inl e \<Rightarrow> Some (Inl e) | Inr (b, f1, d1) \<Rightarrow> Some (Inr (f1, d1)))"
| "apply_op (OpReadBulk n) f d =
     (case Read_bulk f d n of
        None \<Rightarrow> None
      | Some (Inl e) \<Rightarrow> Some (Inl e)
      | Some (Inr (bs, k, f1, d1)) \<Rightarrow> Some (Inr (f1, d1)))"
| "apply_op (OpWrite v) f d = (case Write f v of (r, f1) \<Rightarrow> Some (Inr (f1, d)))"
| "apply_op (OpSeek pos) f d =
     (case Seek f d pos of
        None \<Rightarrow> None
      | Some (Inl e) \<Rightarrow> Some (Inl e)
      | Some (Inr (r, f1, d1)) \<Rightarrow> Some (Inr (f1, d1)))"
| "apply_op OpFlush f d =
     (case Flush f d of Inl e \<Rightarrow> Some (Inl e) | Inr d1 \<Rightarrow> Some (Inr (f, d1)))"

fun run :: "Op list \<Rightarrow> File \<Rightarrow> IFsDriver \<Rightarrow> (fault + (File \<times> IFsDriver)) option" where
  "run [] f d = Some (Inr (f, d))"
| "run (op # ops) f d =
     (case apply_op op f d of
        None \<Rightarrow> None
      | Some (Inl e) \<Rightarrow> Some (Inl e)
      | Some (Inr (f1, d1)) \<Rightarrow> run ops f1 d1)"

text \<open>
  An operation that takes \<open>f\<close>, \<open>d\<close> to \<open>f1\<close>, \<open>d1\<close> is quiet when it does not raise the
  writable flag and, on a file that is not writable, adds no \<open>WriteBlock\<close> to the log.
\<close>

definition quiet :: "File \<Rightarrow> IFsDriver \<Rightarrow> File \<Rightarrow> IFsDriver \<Rightarrow> bool" where
  "quiet f d f1 d1 \<longleftrightarrow>
     (FileFlagWritable \<in> flags f1 \<longrightarrow> FileFlagWritable \<in> flags f)
     \<and> (FileFlagWritable \<notin> flags f \<longrightarrow> writeCalls (drvCalls d1) = writeCalls (drvCalls d))"

subsection \<open>The buffer invariant\<close>

text \<open>
  The file's block size is the driver's and is not 0, the position in the buffer is at
  most the block size, and the buffer, when there is one, holds one block; without a
  buffer the position in the buffer is the block size.
\<close>

definition buffer_ok :: "File \<Rightarrow> IFsDriver \<Rightarrow> bool" where
  "buffer_ok f d \<longleftrightarrow>
     blockSize f = drvBlockSize d \<and> 0 < blockSize f
     \<and> positionInBuffer f \<le> blockSize f
     \<and> (case blockBuffer f of
          None \<Rightarrow> positionInBuffer f = blockSize f
        | Some buf \<Rightarrow> length buf = unat (blockSize f))"

subsection \<open>The read position\<close>

text \<open>The absolute read position, \<open>positionInFile + positionInBuffer\<close>, as a number.\<close>

definition position :: "File \<Rightarrow> nat" where
  "position f = unat (positionInFile f) + unat (positionInBuffer f)"

text \<open>
  A file as the constructors leave it, before any block is loaded: no current node, the
  position in the file is the sentinel \<open>TFileSize(-1)\<close> and the buffer counts as used up.
\<close>

definition unloaded :: "File \<Rightarrow> bool" where
  "unloaded f \<longleftrightarrow>
     current f = 0 \<and> positionInFile f = - 1 \<and> positionInBuffer f = blockSize f"

text \<open>
  The use of the file that keeps the position inside it: \<open>Read()\<close> is called only while
  \<open>EndOfFile()\<close> is false, \<open>Seek\<close> only with a target below the size, and the file is not
  opened again.
\<close>

fun allowed :: "Op \<Rightarrow> File \<Rightarrow> bool" where
  "allowed (OpOpen resolve mem filePath) f = False"
| "allowed OpRead f = (\<not> EndOfFile f)"
| "allowed (OpReadBulk n) f = True"
| "allowed (OpWrite v) f = True"
| "allowed (OpSeek pos) f = (pos < fsize f)"
| "allowed OpFlush f = True"

fun run_allowed :: "Op list \<Rightarrow> File \<Rightarrow> IFsDriver \<Rightarrow> bool" where
  "run_allowed [] f d = True"
| "run_allowed (op # ops) f d =
     (allowed op f \<and>
      (case apply_op op f d of
         Some (Inr (f1, d1)) \<Rightarrow> run_allowed ops f1 d1
       | _ \<Rightarrow> True))"

text \<open>The position is inside the file, and the flag is up when it is at the end.\<close>

definition inside :: "File \<Rightarrow> bool" where
  "inside f \<longleftrightarrow>
     unat (fsize f) < 4294967296
     \<and> (unloaded f
        \<or> (position f \<le> unat (fsize f)
            \<and> (position f = unat (fsize f) \<longrightarrow> FileFlagEof \<in> flags f)))"

subsection \<open>The bytes of a file\<close>

text \<open>
  The chain of a file, as the spec's glossary has it: a chunk is a node with its run of
  \<open>blocksPerNode\<close> blocks, block \<open>b\<close> of the chunk of node \<open>c\<close> is stored at the address
  \<open>c + b\<close>, and the chunks are linked by \<open>nextChunk\<close>. \<open>next_block\<close> is the block after a
  block, \<open>block_at d node j\<close> the \<open>j\<close>-th block of the chain that starts at \<open>node\<close>, and
  \<open>file_byte d node k\<close> the byte at offset \<open>k\<close> of the file stored on that chain.
\<close>

definition next_block :: "IFsDriver \<Rightarrow> FsNode \<times> uint \<Rightarrow> FsNode \<times> uint" where
  "next_block d cb =
     (case cb of (c, b) \<Rightarrow>
        if b + 1 \<ge> drvBlocksPerNode d c then (drvNextChunk d c, 0) else (c, b + 1))"

fun block_at :: "IFsDriver \<Rightarrow> FsNode \<Rightarrow> nat \<Rightarrow> FsNode \<times> uint" where
  "block_at d node 0 = (node, 0)"
| "block_at d node (Suc j) = next_block d (block_at d node j)"

definition file_byte :: "IFsDriver \<Rightarrow> FsNode \<Rightarrow> nat \<Rightarrow> byte" where
  "file_byte d node k =
     (case block_at d node (k div unat (drvBlockSize d)) of
        (c, b) \<Rightarrow> drvStorage d (c + b) (k mod unat (drvBlockSize d)))"

text \<open>
  A block has a successor in the chain when its node is not the terminal node and, if it
  is the last block of its chunk, the next chunk is not the terminal node either.
\<close>

definition can_advance :: "IFsDriver \<Rightarrow> FsNode \<times> uint \<Rightarrow> bool" where
  "can_advance d cb =
     (case cb of (c, b) \<Rightarrow>
        \<not> drvEndOfFile d c
        \<and> (if b + 1 \<ge> drvBlocksPerNode d c then \<not> drvEndOfFile d (drvNextChunk d c) else True))"

text \<open>
  The chain that starts at \<open>node\<close> holds the blocks 0 to \<open>J\<close>: each of them is at a node
  that is not null, and each but the last has a successor.
\<close>

definition chain_covers :: "IFsDriver \<Rightarrow> FsNode \<Rightarrow> nat \<Rightarrow> bool" where
  "chain_covers d node J \<longleftrightarrow>
     list_all (\<lambda>j. fst (block_at d node j) \<noteq> 0) [0..<Suc J]
     \<and> list_all (\<lambda>j. can_advance d (block_at d node j)) [0..<J]"

text \<open>
  A file right after a successful construction: a buffer of one block, nothing loaded,
  a first node, and neither the end-of-file nor the writable flag.
\<close>

definition fresh :: "File \<Rightarrow> IFsDriver \<Rightarrow> bool" where
  "fresh f d \<longleftrightarrow>
     buffer_ok f d \<and> blockBuffer f \<noteq> None \<and> unloaded f \<and> blockInChunk f = 0
     \<and> firstNode f \<noteq> 0 \<and> FileFlagEof \<notin> flags f \<and> FileFlagWritable \<notin> flags f"

text \<open>
  A file that a constructor or \<open>Open\<close> has just set up on a first node: as \<open>fresh\<close>, but the
  end-of-file flag may be up, as \<open>File(driver)\<close> leaves it. \<open>raised f\<close> is the file \<open>f\<close> with
  the end-of-file flag up.
\<close>

definition opened :: "File \<Rightarrow> IFsDriver \<Rightarrow> bool" where
  "opened f d \<longleftrightarrow>
     buffer_ok f d \<and> blockBuffer f \<noteq> None \<and> unloaded f \<and> blockInChunk f = 0
     \<and> firstNode f \<noteq> 0 \<and> FileFlagWritable \<notin> flags f"

definition raised :: "File \<Rightarrow> File" where
  "raised f = f\<lparr>flags := insert FileFlagEof (flags f)\<rparr>"

text \<open>Two driver states that differ in the call log only.\<close>

definition same_driver :: "IFsDriver \<Rightarrow> IFsDriver \<Rightarrow> bool" where
  "same_driver d d0 \<longleftrightarrow>
     drvBlockSize d = drvBlockSize d0 \<and> drvEndOfFile d = drvEndOfFile d0
     \<and> drvBlocksPerNode d = drvBlocksPerNode d0 \<and> drvNextChunk d = drvNextChunk d0
     \<and> drvStorage d = drvStorage d0"

text \<open>
  The state of a file, constructed as \<open>f0\<close> on the driver \<open>d0\<close>, after \<open>k\<close> of its bytes
  have been read in sequence, for \<open>k\<close> at least 1: the buffer holds block
  \<open>(k - 1) div blockSize\<close> of the chain, the cursor stands behind byte \<open>k - 1\<close>, and the
  end-of-file flag is up exactly when \<open>k\<close> has reached the size.
\<close>

definition at_offset :: "IFsDriver \<Rightarrow> File \<Rightarrow> nat \<Rightarrow> File \<Rightarrow> IFsDriver \<Rightarrow> bool" where
  "at_offset d0 f0 k f d \<longleftrightarrow>
     buffer_ok f d \<and> same_driver d d0
     \<and> fsize f = fsize f0 \<and> firstNode f = firstNode f0
     \<and> (current f, blockInChunk f)
         = block_at d0 (firstNode f0) ((k - 1) div unat (drvBlockSize d0))
     \<and> unat (positionInFile f)
         = (k - 1) div unat (drvBlockSize d0) * unat (drvBlockSize d0)
     \<and> position f = k
     \<and> blockBuffer f
         = Some (map (drvStorage d0 (current f + blockInChunk f)) [0..<unat (drvBlockSize d0)])
     \<and> (FileFlagEof \<in> flags f) = (unat (fsize f0) \<le> k)
     \<and> FileFlagWritable \<notin> flags f"

section \<open>Properties\<close>

subsection \<open>Seek\<close>

lemma Seek_result_False:
  "Seek f d pos = Some (Inr (r, f1, d1)) \<Longrightarrow> r = False"
  by (auto simp: Seek_def split: option.splits sum.splits prod.splits elim: Seek_return.elims)

text \<open>
  C2. Claim: for every offset X below the size, \<open>Seek(X)\<close> followed by \<open>Read()\<close> returns
  the X-th byte of the file, also in a later chunk and after a backward seek.
  The code does not: the loop of \<open>Seek\<close> adds the block size to the file position without
  moving \<open>blockInChunk\<close>, and a backward seek rewinds the node and the position without
  resetting \<open>blockInChunk\<close>. On the 20-byte file, reading from offset 0 gives 10, 11, ...;
  \<open>Seek(5)\<close> then \<open>Read()\<close> gives 11, the byte at offset 1, and after six reads \<open>Seek(0)\<close>
  then \<open>Read()\<close> gives 14, the byte at offset 4.
\<close>

theorem Seek_Read_wrong_block:
  "map_sum id fst (Read_n 6 (demoFile 20) demoDrv) = Inr [10, 11, 12, 13, 14, 15]
   \<and> Seek_Read (demoFile 20) demoDrv 5 = Some 11
   \<and> Seek_Read (fst (demoAfter 20 6)) (snd (demoAfter 20 6)) 0 = Some 14"
  by code_simp

text \<open>
  C3. Claim: \<open>Seek\<close> returns true when it succeeds and false only on failure.
  The code returns false at every exit. On the fresh 20-byte file \<open>Seek(0)\<close> leaves by the
  end of the function, with the first block loaded and the cursor on offset 0, and its
  value is false.
\<close>

theorem Seek_success_returns_false:
  "map_option (map_sum id fst) (Seek_exit (demoFile 20) demoDrv 0) = Some (Inr SeekDone)
   \<and> map_option (map_sum id (\<lambda>(r, f, d). (r, blockBuffer f, positionInFile f, positionInBuffer f)))
        (Seek (demoFile 20) demoDrv 0)
      = Some (Inr (False, Some [10, 11, 12, 13], 0, 0))"
  by code_simp

subsection \<open>Word arithmetic\<close>

lemma unat_ucast_up: "unat (ucast (x :: uint) :: TFileSize) = unat x"
proof -
  have "unat x < 2 ^ 64" using unsigned_less [of x, where ?'a = nat] by simp
  then show ?thesis by (simp add: unsigned_ucast_eq take_bit_nat_eq_self)
qed

lemma unat_uint_bound: "unat (x :: uint) < 4294967296"
  using unsigned_less [of x, where ?'a = nat] by simp

lemma unat_size_bound: "unat (x :: TFileSize) < 18446744073709551616"
  using unsigned_less [of x, where ?'a = nat] by simp

lemma unat_add_file:
  "unat a + unat b < 18446744073709551616 \<Longrightarrow> unat (a + b :: TFileSize) = unat a + unat b"
  by (simp add: unat_word_ariths)

lemma unat_sub_file: "unat b \<le> unat a \<Longrightarrow> unat (a - b :: TFileSize) = unat a - unat b"
  by (simp add: unat_sub word_le_nat_alt)

lemma unat_ucast_down:
  "unat x < 4294967296 \<Longrightarrow> unat (ucast (x :: TFileSize) :: uint) = unat x"
  by (simp add: unsigned_ucast_eq take_bit_nat_eq_self)

subsection \<open>Allocation failure\<close>

text \<open>
  C5. When the allocation of the block buffer fails in \<open>Open\<close>, \<open>Open\<close> returns false
  having called the driver for its block size only, the end-of-file and out-of-memory
  flags are set, and from then on a single-byte read returns 0 and a bulk read returns 0
  bytes, each leaving the file and the driver (its call log included) exactly as they
  were, so that the same holds for every later read.
\<close>

theorem Open_allocation_failure:
  assumes "blockBuffer f = None"
  shows "\<exists>f'. Open f d resolve None filePath = (False, f', logCall CallGetParameter d)
           \<and> EndOfFile f' \<and> FileOutOufMem \<in> flags f'
           \<and> (\<forall>d1. Read f' d1 = Inr (0, f', d1))
           \<and> (\<forall>d1 n. Read_bulk f' d1 n = Some (Inr ([], 0, f', d1)))"
  using assms
  by (simp add: Open_def GetParameter_def new_nothrow_def EndOfFile_def Read_def Read_bulk_def)

theorem Open_allocation_failure_witness:
  "blockBuffer (fst (File_ctor demoDriver)) = None
   \<and> (\<exists>f'. Open (fst (File_ctor demoDriver)) (snd (File_ctor demoDriver)) (\<lambda>p. (2, 20)) None ''a.txt''
              = (False, f', logCall CallGetParameter (snd (File_ctor demoDriver)))
           \<and> EndOfFile f' \<and> FileOutOufMem \<in> flags f'
           \<and> (\<forall>d1. Read f' d1 = Inr (0, f', d1))
           \<and> (\<forall>d1 n. Read_bulk f' d1 n = Some (Inr ([], 0, f', d1))))"
proof -
  have h: "blockBuffer (fst (File_ctor demoDriver)) = None"
    by (simp add: File_ctor_def GetParameter_def)
  from Open_allocation_failure [OF h] show ?thesis using h by blast
qed

subsection \<open>Flush\<close>

lemma writeCalls_append: "writeCalls (xs @ ys) = writeCalls xs @ writeCalls ys"
  by (induction xs rule: writeCalls.induct) auto

lemma writeCalls_logCall:
  "writeCalls (drvCalls (logCall c d)) = writeCalls (drvCalls d) @ writeCalls [c]"
  by (simp add: logCall_def writeCalls_append)



subsection \<open>Seek inside the buffered block\<close>

text \<open>
  C7, as the claim states it, fails: a seek inside the buffered block also clears the
  end-of-file flag. After both bytes of the 2-byte file are read the flag is set, and
  \<open>Seek(0)\<close> clears it. And on a fresh file, whose position is the sentinel
  \<open>TFileSize(-1)\<close>, the sum \<open>_positionInFile + _blockSize\<close> wraps around, so that a target
  equal to the position is taken for one outside the block and the driver is called.
\<close>

theorem Seek_inside_block_changes_flags:
  "(case demoAfter 2 2 of (f, d) \<Rightarrow>
      positionInFile f \<le> 0 \<and> 0 - positionInFile f < ucast (blockSize f)
      \<and> FileFlagEof \<in> flags f
      \<and> map_option (map_sum id (\<lambda>(r, f1, d1). FileFlagEof \<in> flags f1)) (Seek f d 0)
          = Some (Inr False))
   \<and> positionInFile (demoFile 20) \<le> - 1
   \<and> (- 1) - positionInFile (demoFile 20) < ucast (blockSize (demoFile 20))
   \<and> map_option (map_sum id (\<lambda>(r, f1, d1). drvCalls d1)) (Seek (demoFile 20) nullEndDrv (- 1))
       = Some (Inr (drvCalls nullEndDrv @ [CallEndOfFile 0]))"
  by code_simp

text \<open>
  C7, amended. With a buffer allocated and a target inside the buffered block, where
  \<open>positionInFile + blockSize\<close> does not wrap around, \<open>Seek\<close> calls no driver operation
  (the driver and its call log are returned as they were) and changes the position in
  the buffer, to the target's offset in the block, and the end-of-file flag, which it
  clears; the buffer, the current node, the block in the chunk and the position in the
  file stay as they were.
\<close>

theorem Seek_inside_block:
  assumes "blockBuffer f = Some buf"
    and "unat (positionInFile f) \<le> unat pos"
    and "unat pos < unat (positionInFile f) + unat (blockSize f)"
    and "unat (positionInFile f) + unat (blockSize f) < 2 ^ 64"
  shows "Seek f d pos =
           Some (Inr (False,
             f\<lparr>positionInBuffer := ucast (pos - positionInFile f),
               flags := flags f - {FileFlagEof}\<rparr>, d))
         \<and> unat (ucast (pos - positionInFile f) :: uint) = unat pos - unat (positionInFile f)"
proof -
  have s: "unat (positionInFile f + ucast (blockSize f))
             = unat (positionInFile f) + unat (blockSize f)"
    using assms(4) by (simp add: unat_add_file unat_ucast_up)
  have 1: "\<not> (pos \<ge> positionInFile f + ucast (blockSize f))"
    using assms(3) by (simp add: word_le_nat_alt s)
  have 2: "\<not> pos < positionInFile f"
    using assms(2) by (simp add: word_less_nat_alt)
  have 3: "unat (pos - positionInFile f) = unat pos - unat (positionInFile f)"
    using assms(2) by (rule unat_sub_file)
  have 4: "unat pos - unat (positionInFile f) < 4294967296"
    using assms(3) unat_uint_bound [of "blockSize f"] by linarith
  show ?thesis
    using assms(1) 1 2 3 4 by (simp add: Seek_def Seek_exit_def unat_ucast_down)
qed

theorem Seek_inside_block_witness:
  "blockBuffer (fst (demoAfter 20 6)) = Some [14, 15, 16, 17]
   \<and> unat (positionInFile (fst (demoAfter 20 6))) \<le> unat (5 :: TFileSize)
   \<and> unat (5 :: TFileSize)
       < unat (positionInFile (fst (demoAfter 20 6))) + unat (blockSize (fst (demoAfter 20 6)))
   \<and> Seek (fst (demoAfter 20 6)) (snd (demoAfter 20 6)) 5 =
         Some (Inr (False,
           (fst (demoAfter 20 6))\<lparr>positionInBuffer := 1,
              flags := flags (fst (demoAfter 20 6)) - {FileFlagEof}\<rparr>, snd (demoAfter 20 6)))"
proof -
  have b: "blockBuffer (fst (demoAfter 20 6)) = Some [14, 15, 16, 17]"
    by code_simp
  have p: "positionInFile (fst (demoAfter 20 6)) = 4"
    by code_simp
  have s: "blockSize (fst (demoAfter 20 6)) = 4"
    by code_simp
  have h2: "unat (positionInFile (fst (demoAfter 20 6))) \<le> unat (5 :: TFileSize)"
    by (simp add: p)
  have h3: "unat (5 :: TFileSize)
            < unat (positionInFile (fst (demoAfter 20 6))) + unat (blockSize (fst (demoAfter 20 6)))"
    by (simp add: p s)
  have h4: "unat (positionInFile (fst (demoAfter 20 6))) + unat (blockSize (fst (demoAfter 20 6)))
            < 2 ^ 64"
    by (simp add: p s)
  from Seek_inside_block [OF b h2 h3 h4, of "snd (demoAfter 20 6)"] b h2 h3
  show ?thesis by (simp add: p)
qed

subsection \<open>Nothing is ever written\<close>

lemma quiet_trans: "quiet f d f1 d1 \<Longrightarrow> quiet f1 d1 f2 d2 \<Longrightarrow> quiet f d f2 d2"
  by (auto simp: quiet_def)

lemma Flush_quiet: "Flush f d = Inr d1 \<Longrightarrow> quiet f d f d1"
  by (auto simp: quiet_def Flush_def Driver_EndOfFile_def writeCalls_logCall Let_def
      split: option.splits if_splits)

lemma Read_byte_quiet: "Read_byte f d = Inr (b, f1, d1) \<Longrightarrow> quiet f d f1 d1"
  by (auto simp: quiet_def Read_byte_def Let_def split: option.splits if_splits)

lemma Read_load_quiet: "Read_load f d = Inr (f1, d1) \<Longrightarrow> quiet f d f1 d1"
  by (auto simp: quiet_def Read_load_def ReadBlock_def writeCalls_logCall Let_def
      split: option.splits if_splits sum.splits)

lemma Read_fetch_quiet: "Read_fetch f d = Inr (b, f1, d1) \<Longrightarrow> quiet f d f1 d1"
  by (auto simp: Read_fetch_def split: sum.splits intro: quiet_trans Read_load_quiet Read_byte_quiet)

lemma Read_quiet: "Read f d = Inr (b, f1, d1) \<Longrightarrow> quiet f d f1 d1"
  apply (simp add: Read_def Driver_EndOfFile_def GetBlocksPerNode_def GetNextChunk_def Let_def
      split: if_splits sum.splits)
  apply (auto dest!: Read_fetch_quiet Read_byte_quiet Flush_quiet simp: quiet_def writeCalls_logCall)
  done

lemma Read_bulk_first_quiet: "Read_bulk_first f buf n = Inr (dest, k, f1) \<Longrightarrow> quiet f d f1 d"
  by (auto simp: Read_bulk_first_def Let_def quiet_def split: sum.splits)

lemma Read_bulk_advance_quiet: "Read_bulk_advance f d = Inr (brk, f1, d1) \<Longrightarrow> quiet f d f1 d1"
  apply (simp add: Read_bulk_advance_def Driver_EndOfFile_def GetBlocksPerNode_def GetNextChunk_def Let_def
      split: if_splits sum.splits)
  apply (auto dest!: Flush_quiet simp: quiet_def writeCalls_logCall)
  done

lemma Read_bulk_copy_quiet: "Read_bulk_copy f d dest k n = Inr (dest1, k1, f1, d1) \<Longrightarrow> quiet f d f1 d1"
  by (auto simp: Read_bulk_copy_def ReadBlock_def Let_def quiet_def writeCalls_logCall
      split: option.splits sum.splits if_splits)

lemma Read_bulk_body_quiet:
  "Read_bulk_body f d dest k n = Inr (brk, dest1, k1, f1, d1) \<Longrightarrow> quiet f d f1 d1"
  by (auto simp: Read_bulk_body_def split: sum.splits if_splits prod.splits
      intro: Read_bulk_advance_quiet
      intro: quiet_trans [OF Read_bulk_advance_quiet Read_bulk_copy_quiet])

lemma Read_bulk_loop_quiet:
  assumes "Read_bulk_loop f d dest k n = Some (Inr (dest1, k1, f1, d1))"
  shows "quiet f d f1 d1"
proof -
  have "\<forall>dest1 k1 f1 d1. r = Inr (dest1, k1, f1, d1) \<longrightarrow> quiet f d f1 d1"
    if "Read_bulk_loop f d dest k n = Some r" for r
    using that
  proof (induction rule: Read_bulk_loop.raw_induct [rotated 1, consumes 1])
    case (1 loop f d dest k n r)
    show ?case
    proof (cases "k < n \<and> ucast (positionInBuffer f) + positionInFile f < fsize f")
      case False
      with 1(2) show ?thesis by (auto simp: quiet_def)
    next
      case True
      show ?thesis
      proof (intro allI impI)
        fix dest1 k1 f1 d1
        assume r: "r = Inr (dest1, k1, f1, d1)"
        from True 1(2) r obtain brk dest2 k2 f2 d2 where
          body: "Read_bulk_body f d dest k n = Inr (brk, dest2, k2, f2, d2)"
          and rest: "if brk then r = Inr (dest2, k2, f2, d2) else loop f2 d2 dest2 k2 n = Some r"
          by (auto split: sum.splits if_splits)
        from body have q: "quiet f d f2 d2" by (rule Read_bulk_body_quiet)
        show "quiet f d f1 d1"
        proof (cases brk)
          case True
          with rest r q show ?thesis by simp
        next
          case False
          with rest have "loop f2 d2 dest2 k2 n = Some r" by simp
          from 1(1) [OF this] r have "quiet f2 d2 f1 d1" by blast
          with q show ?thesis by (rule quiet_trans)
        qed
      qed
    qed
  qed
  with assms show ?thesis by blast
qed

lemma Read_bulk_eof_quiet: "quiet f d (Read_bulk_eof f) d"
  by (simp add: quiet_def Read_bulk_eof_def)

lemma Read_bulk_quiet: "Read_bulk f d n = Some (Inr (dest, k, f1, d1)) \<Longrightarrow> quiet f d f1 d1"
  apply (simp add: Read_bulk_def split: option.splits sum.splits prod.splits)
   apply (simp add: quiet_def)
  apply (blast intro: quiet_trans Read_bulk_first_quiet Read_bulk_loop_quiet Read_bulk_eof_quiet)
  done

lemma Seek_body_quiet: "Seek_body f d = (failed, f1, d1) \<Longrightarrow> quiet f d f1 d1"
  by (auto simp: Seek_body_def Driver_EndOfFile_def GetBlocksPerNode_def GetNextChunk_def Let_def
      quiet_def writeCalls_logCall split: if_splits prod.splits)

lemma Seek_loop_quiet:
  assumes "Seek_loop f d pos = Some (failed, f1, d1)"
  shows "quiet f d f1 d1"
proof -
  have "quiet f d (fst (snd r)) (snd (snd r))" if "Seek_loop f d pos = Some r" for r
    using that
  proof (induction rule: Seek_loop.raw_induct [rotated 1, consumes 1])
    case (1 loop f d pos r)
    show ?case
    proof (cases "pos > positionInFile f + ucast (blockSize f)")
      case False
      with 1(2) show ?thesis by (auto simp: quiet_def)
    next
      case True
      obtain fl f2 d2 where body: "Seek_body f d = (fl, f2, d2)"
        by (cases "Seek_body f d") auto
      from body have q: "quiet f d f2 d2" by (rule Seek_body_quiet)
      show ?thesis
      proof (cases fl)
        case True
        with \<open>pos > _\<close> body 1(2) have "r = (True, f2, d2)" by simp
        with q show ?thesis by simp
      next
        case False
        with \<open>pos > _\<close> body 1(2) have "loop f2 d2 pos = Some r" by simp
        from 1(1) [OF this] q show ?thesis by (rule quiet_trans [rotated])
      qed
    qed
  qed
  from this [OF assms] show ?thesis by simp
qed

lemma ReadBlock_writeCalls:
  "ReadBlock d a buf = Inr (buf1, d1) \<Longrightarrow> writeCalls (drvCalls d1) = writeCalls (drvCalls d)"
  by (auto simp: ReadBlock_def Let_def writeCalls_logCall split: if_splits)

lemma Seek_exit_quiet: "Seek_exit f d pos = Some (Inr (x, f1, d1)) \<Longrightarrow> quiet f d f1 d1"
  apply (simp add: Seek_exit_def Let_def split: option.splits if_splits sum.splits prod.splits)
      apply (auto dest!: Flush_quiet Seek_loop_quiet ReadBlock_writeCalls simp: quiet_def)
  done

lemma Seek_quiet: "Seek f d pos = Some (Inr (r, f1, d1)) \<Longrightarrow> quiet f d f1 d1"
  by (auto simp: Seek_def split: option.splits sum.splits dest: Seek_exit_quiet)

lemma Open_quiet: "Open f d resolve mem filePath = (ok, f1, d1) \<Longrightarrow> quiet f d f1 d1"
  by (auto simp: Open_def GetParameter_def Let_def quiet_def writeCalls_logCall
      split: if_splits prod.splits)

lemma Write_same: "Write f v = (False, f)"
  by (simp add: Write_def)

lemma apply_op_quiet: "apply_op op f d = Some (Inr (f1, d1)) \<Longrightarrow> quiet f d f1 d1"
  by (cases op)
    (auto simp: Write_def split: prod.splits sum.splits option.splits
      dest: Open_quiet Read_quiet Read_bulk_quiet Seek_quiet Flush_quiet simp: quiet_def)

lemma run_quiet: "run ops f d = Some (Inr (f1, d1)) \<Longrightarrow> quiet f d f1 d1"
proof (induction ops arbitrary: f d)
  case Nil
  then show ?case by (simp add: quiet_def)
next
  case (Cons op ops)
  then obtain f2 d2 where a: "apply_op op f d = Some (Inr (f2, d2))" and r: "run ops f2 d2 = Some (Inr (f1, d1))"
    by (auto split: option.splits sum.splits)
  from apply_op_quiet [OF a] Cons.IH [OF r] show ?case by (rule quiet_trans)
qed

lemma File_dtor_quiet: "File_dtor f d = Inr (f1, d1) \<Longrightarrow> quiet f d f1 d1"
  by (auto simp: File_dtor_def split: sum.splits if_splits dest!: Flush_quiet simp: quiet_def)


lemma ctor_quiet:
  assumes "(f0, d0) = File_ctor d \<or> (f0, d0) = File_ctor_node d node sz mem
           \<or> (f0, d0) = File_ctor_path d resolve mem filePath node0 buf0 n0"
  shows "FileFlagWritable \<notin> flags f0 \<and> writeCalls (drvCalls d0) = writeCalls (drvCalls d)"
proof -
  have 1: "(f0, d0) = File_ctor d \<Longrightarrow> ?thesis"
    by (auto simp: File_ctor_def GetParameter_def writeCalls_logCall)
  have 2: "(f0, d0) = File_ctor_node d node sz mem \<Longrightarrow> ?thesis"
    by (auto simp: File_ctor_node_def GetParameter_def Let_def writeCalls_logCall)
  have 3: "(f0, d0) = File_ctor_path d resolve mem filePath node0 buf0 n0 \<Longrightarrow> ?thesis"
    by (auto simp: File_ctor_path_def Let_def quiet_def split: prod.splits dest!: Open_quiet)
  from assms 1 2 3 show ?thesis by blast
qed

text \<open>
  C10. Whatever constructor made the file and whatever operations (\<open>Open\<close>, \<open>Read\<close>, bulk
  \<open>Read\<close>, \<open>Write\<close>, \<open>Seek\<close>, \<open>Flush\<close>) ran on it since, the writable flag is not set, the
  driver's log holds no \<open>WriteBlock\<close> call beyond those it held before the construction,
  \<open>Write\<close> returns false and leaves the file as it was, \<open>Flush\<close> has nothing to write back,
  and the destructor adds no \<open>WriteBlock\<close> call either.
\<close>

theorem never_writes_storage:
  assumes "(f0, d0) = File_ctor d \<or> (f0, d0) = File_ctor_node d node sz mem
           \<or> (f0, d0) = File_ctor_path d resolve mem filePath node0 buf0 n0"
    and "run ops f0 d0 = Some (Inr (f1, d1))"
  shows "FileFlagWritable \<notin> flags f1
         \<and> writeCalls (drvCalls d1) = writeCalls (drvCalls d)
         \<and> Write f1 v = (False, f1)
         \<and> Flush_spec f1 d1 = []
         \<and> (\<forall>f2 d2. File_dtor f1 d1 = Inr (f2, d2)
               \<longrightarrow> writeCalls (drvCalls d2) = writeCalls (drvCalls d))"
proof -
  from ctor_quiet [OF assms(1)]
  have c: "FileFlagWritable \<notin> flags f0" "writeCalls (drvCalls d0) = writeCalls (drvCalls d)"
    by simp_all
  from run_quiet [OF assms(2)] c
  have r: "FileFlagWritable \<notin> flags f1" "writeCalls (drvCalls d1) = writeCalls (drvCalls d)"
    by (auto simp: quiet_def)
  have w: "Write f1 v = (False, f1)" by (rule Write_same)
  have s: "Flush_spec f1 d1 = []" using r(1) by (simp add: Flush_spec_def split: option.splits)
  have t: "writeCalls (drvCalls d2) = writeCalls (drvCalls d)"
    if "File_dtor f1 d1 = Inr (f2, d2)" for f2 d2
    using File_dtor_quiet [OF that] r by (simp add: quiet_def)
  from r w s t show ?thesis by blast
qed

theorem never_writes_storage_witness:
  "(demoFile 20, demoDrv) = File_ctor_node demoDriver 2 20 (Some (\<lambda>i. 0))
   \<and> (\<exists>f1 d1. run [OpRead, OpWrite 7, OpSeek 5, OpReadBulk 9, OpFlush] (demoFile 20) demoDrv
                  = Some (Inr (f1, d1))
        \<and> FileFlagWritable \<notin> flags f1 \<and> writeCalls (drvCalls d1) = [])"
proof -
  have h: "(demoFile 20, demoDrv) = File_ctor_node demoDriver 2 20 (Some (\<lambda>i. 0))"
    by (simp add: demoFile_def demoDrv_def File_ctor_node_def GetParameter_def Let_def)
  have "case run [OpRead, OpWrite 7, OpSeek 5, OpReadBulk 9, OpFlush] (demoFile 20) demoDrv of
          Some (Inr (f1, d1)) \<Rightarrow> True | _ \<Rightarrow> False"
    by code_simp
  then obtain f1 d1 where
    r: "run [OpRead, OpWrite 7, OpSeek 5, OpReadBulk 9, OpFlush] (demoFile 20) demoDrv
          = Some (Inr (f1, d1))"
    by (auto split: option.splits sum.splits)
  have e: "writeCalls (drvCalls demoDriver) = []"
    by code_simp
  have h': "(demoFile 20, demoDrv) = File_ctor demoDriver
            \<or> (demoFile 20, demoDrv) = File_ctor_node demoDriver 2 20 (Some (\<lambda>i. 0))
            \<or> (demoFile 20, demoDrv) = File_ctor_path demoDriver (\<lambda>p. (2, 20)) (Some (\<lambda>i. 0)) [] 0 None 0"
    using h by blast
  from never_writes_storage [OF h' r] e h r show ?thesis by auto
qed

subsection \<open>Buffer accesses stay inside the buffer\<close>

lemma logCall_simps [simp]:
  "drvBlockSize (logCall c d) = drvBlockSize d"
  "drvEndOfFile (logCall c d) = drvEndOfFile d"
  "drvBlocksPerNode (logCall c d) = drvBlocksPerNode d"
  "drvNextChunk (logCall c d) = drvNextChunk d"
  "drvStorage (logCall c d) = drvStorage d"
  "drvCalls (logCall c d) = drvCalls d @ [c]"
  by (simp_all add: logCall_def)

lemma buffer_ok_logCall [simp]: "buffer_ok f (logCall c d) = buffer_ok f d"
  by (simp add: buffer_ok_def)

lemma uint_pos_one: "0 < (x :: uint) \<Longrightarrow> 1 \<le> x"
  by (simp add: word_le_nat_alt word_less_nat_alt)

lemma Flush_ok: "buffer_ok f d \<Longrightarrow> \<exists>d1. Flush f d = Inr d1 \<and> buffer_ok f d1"
  by (auto simp: Flush_def buffer_ok_def Driver_EndOfFile_def WriteBlock_def Let_def logCall_def
      split: option.splits)

lemma Read_byte_ok:
  assumes "buffer_ok f d" "positionInBuffer f < blockSize f"
  shows "\<exists>b f1. Read_byte f d = Inr (b, f1, d) \<and> buffer_ok f1 d"
proof -
  from assms obtain buf where b: "blockBuffer f = Some buf" "length buf = unat (blockSize f)"
    by (auto simp: buffer_ok_def split: option.splits)
  from assms(2) have i: "unat (positionInBuffer f) < length buf"
    by (simp add: b word_less_nat_alt)
  from assms(2) have le: "positionInBuffer f + 1 \<le> blockSize f" by (rule inc_le)
  show ?thesis using assms(1) b i le
    by (auto simp: Read_byte_def Let_def buffer_ok_def)
qed

lemma ReadBlock_ok:
  assumes "length buf = unat (drvBlockSize d)"
  shows "ReadBlock d a buf = Inr (map (drvStorage d a) [0..<unat (drvBlockSize d)], logCall (CallReadBlock a) d)"
  using assms by (simp add: ReadBlock_def Let_def)

lemma Read_fetch_ok:
  assumes "buffer_ok f d" "blockBuffer f \<noteq> None"
  shows "\<exists>b f1 d1. Read_fetch f d = Inr (b, f1, d1) \<and> buffer_ok f1 d1"
proof -
  from assms obtain buf where b: "blockBuffer f = Some buf" "length buf = unat (drvBlockSize d)"
    by (auto simp: buffer_ok_def split: option.splits)
  let ?a = "current f + blockInChunk f"
  let ?f1 = "f\<lparr>blockBuffer := Some (map (drvStorage d ?a) [0..<unat (drvBlockSize d)]), positionInBuffer := 0\<rparr>"
  have l: "Read_load f d = Inr (?f1, logCall (CallReadBlock ?a) d)"
    by (simp add: Read_load_def b ReadBlock_ok)
  have ok: "buffer_ok ?f1 (logCall (CallReadBlock ?a) d)"
    using assms(1) by (auto simp: buffer_ok_def)
  have lt: "positionInBuffer ?f1 < blockSize ?f1"
    using assms(1) by (auto simp: buffer_ok_def)
  from Read_byte_ok [OF ok lt] l show ?thesis
    by (auto simp: Read_fetch_def)
qed

lemma buffer_ok_update [simp]:
  "buffer_ok (f\<lparr>current := c\<rparr>) d = buffer_ok f d"
  "buffer_ok (f\<lparr>positionInFile := p\<rparr>) d = buffer_ok f d"
  "buffer_ok (f\<lparr>blockInChunk := k\<rparr>) d = buffer_ok f d"
  "buffer_ok (f\<lparr>flags := fl\<rparr>) d = buffer_ok f d"
  "buffer_ok (f\<lparr>firstNode := c\<rparr>) d = buffer_ok f d"
  "buffer_ok (f\<lparr>fsize := p\<rparr>) d = buffer_ok f d"
  by (simp_all add: buffer_ok_def cong: option.case_cong)

lemma blockBuffer_update [simp]:
  "blockBuffer (f\<lparr>current := c\<rparr>) = blockBuffer f"
  by simp

lemma Read_ok:
  assumes "buffer_ok f d"
  shows "\<exists>b f1 d1. Read f d = Inr (b, f1, d1) \<and> buffer_ok f1 d1"
proof (cases "positionInBuffer f \<ge> blockSize f")
  case False
  then have "positionInBuffer f < blockSize f" by simp
  from Read_byte_ok [OF assms this] False show ?thesis by (auto simp: Read_def)
next
  case True
  show ?thesis
  proof (cases "blockBuffer f")
    case None
    with True assms show ?thesis by (simp add: Read_def)
  next
    case (Some buf)
    have fetch: "\<exists>b f1 d1. Read_fetch g e = Inr (b, f1, d1) \<and> buffer_ok f1 d1"
      if "buffer_ok g e" "blockBuffer g = Some buf" for g e
      using Read_fetch_ok [of g e] that by simp
    obtain d2 where fl: "Flush f (logCall (CallEndOfFile (current f)) d) = Inr d2" and ok2: "buffer_ok f d2"
      using Flush_ok [of f "logCall (CallEndOfFile (current f)) d"] assms by auto
    show ?thesis
      using True Some assms ok2 fl
      by (auto simp: Read_def Driver_EndOfFile_def GetBlocksPerNode_def GetNextChunk_def Let_def
          intro!: fetch)
  qed
qed


lemma unat_uint_sub: "(y :: uint) \<le> x \<Longrightarrow> unat (x - y) = unat x - unat y"
  by (rule unat_sub)

lemma unat_uint_add:
  "unat x + unat y < 4294967296 \<Longrightarrow> unat (x + y :: uint) = unat x + unat y"
  by (simp add: unat_word_ariths)

lemma Read_bulk_first_ok:
  assumes "buffer_ok f d" "blockBuffer f = Some buf"
  shows "\<exists>dest k f1. Read_bulk_first f buf n = Inr (dest, k, f1) \<and> buffer_ok f1 d
           \<and> blockBuffer f1 = Some buf
           \<and> (positionInBuffer f = blockSize f \<longrightarrow> dest = [] \<and> f1 = f)"
proof -
  define total :: uint where
    "total = (if ucast (positionInBuffer f) + positionInFile f < fsize f
              then ucast (fsize f - (ucast (positionInBuffer f) + positionInFile f)) else 0)"
  define k0 where "k0 = min n (blockSize f - positionInBuffer f)"
  define k where "k = (if k0 > total then total else k0)"
  from assms have le: "positionInBuffer f \<le> blockSize f" and len: "length buf = unat (blockSize f)"
    by (auto simp: buffer_ok_def)
  have "k \<le> k0" by (auto simp: k_def)
  also have "k0 \<le> blockSize f - positionInBuffer f" by (simp add: k0_def)
  finally have "unat k \<le> unat (blockSize f - positionInBuffer f)" by (simp add: word_le_nat_alt)
  with le have kb: "unat k \<le> unat (blockSize f) - unat (positionInBuffer f)"
    by (simp add: unat_uint_sub)
  from le have pb: "unat (positionInBuffer f) \<le> unat (blockSize f)" by (simp add: word_le_nat_alt)
  have sum: "unat (positionInBuffer f + k) = unat (positionInBuffer f) + unat k"
    using kb pb unat_uint_bound [of "blockSize f"] by (intro unat_uint_add) linarith
  have le': "positionInBuffer f + k \<le> blockSize f"
    using kb pb by (simp add: word_le_nat_alt sum)
  have m: "\<exists>dest. memcpy_from buf (positionInBuffer f) k = Inr dest \<and> (k = 0 \<longrightarrow> dest = [])"
    using kb pb len by (auto simp: memcpy_from_def)
  have z: "positionInBuffer f = blockSize f \<Longrightarrow> k = 0"
    using kb by (simp add: unat_eq_0 [symmetric])
  have r: "Read_bulk_first f buf n =
        (case memcpy_from buf (positionInBuffer f) k of
           Inl e \<Rightarrow> Inl e
         | Inr dest \<Rightarrow> Inr (dest, k, f\<lparr>positionInBuffer := positionInBuffer f + k\<rparr>))"
    unfolding Read_bulk_first_def Let_def k_def k0_def total_def ..
  show ?thesis
    using m le' assms z by (auto simp: r buffer_ok_def)
qed

lemma Read_bulk_advance_ok:
  assumes "buffer_ok f d"
  shows "\<exists>brk f1 d1. Read_bulk_advance f d = Inr (brk, f1, d1) \<and> buffer_ok f1 d1
           \<and> blockBuffer f1 = blockBuffer f"
proof -
  obtain d2 where fl: "Flush f (logCall (CallEndOfFile (current f)) d) = Inr d2"
    and ok2: "buffer_ok f d2"
    using Flush_ok [of f "logCall (CallEndOfFile (current f)) d"] assms by auto
  show ?thesis using assms fl ok2
    by (auto simp: Read_bulk_advance_def Driver_EndOfFile_def GetBlocksPerNode_def
        GetNextChunk_def Let_def)
qed

lemma Read_bulk_copy_ok:
  assumes "buffer_ok f d" "blockBuffer f \<noteq> None"
  shows "\<exists>dest1 k1 f1 d1. Read_bulk_copy f d dest k n = Inr (dest1, k1, f1, d1)
           \<and> buffer_ok f1 d1 \<and> blockBuffer f1 \<noteq> None"
proof -
  from assms obtain buf where b: "blockBuffer f = Some buf" "length buf = unat (drvBlockSize d)"
    and bs: "blockSize f = drvBlockSize d"
    by (auto simp: buffer_ok_def split: option.splits)
  define total :: uint where
    "total = (if positionInFile f < fsize f then ucast (fsize f - positionInFile f) else 0)"
  define c0 where "c0 = min (n - k) (blockSize f)"
  define c where "c = (if c0 > total then total else c0)"
  have "c \<le> c0" by (auto simp: c_def)
  also have "c0 \<le> blockSize f" by (simp add: c0_def)
  finally have cb: "c \<le> blockSize f" .
  then have "unat c \<le> unat (drvBlockSize d)" by (simp add: word_le_nat_alt bs)
  then have m: "\<exists>bytes. memcpy_from (map (drvStorage d (current f + blockInChunk f))
                   [0..<unat (drvBlockSize d)]) 0 c = Inr bytes"
    by (auto simp: memcpy_from_def)
  let ?buf1 = "map (drvStorage d (current f + blockInChunk f)) [0..<unat (drvBlockSize d)]"
  let ?d1 = "logCall (CallReadBlock (current f + blockInChunk f)) d"
  let ?f2 = "if c0 > total then f\<lparr>blockBuffer := Some ?buf1, flags := flags f \<union> {FileFlagEof}\<rparr>
             else f\<lparr>blockBuffer := Some ?buf1\<rparr>"
  have r: "Read_bulk_copy f d dest k n =
        (case memcpy_from ?buf1 0 c of
           Inl e \<Rightarrow> Inl e
         | Inr bytes \<Rightarrow> Inr (dest @ bytes, k + c, ?f2\<lparr>positionInBuffer := c\<rparr>, ?d1))"
    unfolding Read_bulk_copy_def c_def c0_def total_def
    by (simp add: b ReadBlock_ok Let_def cong: sum.case_cong)
  show ?thesis using m cb assms(1)
    by (auto simp: r buffer_ok_def)
qed

lemma Read_bulk_body_ok:
  assumes "buffer_ok f d" "blockBuffer f \<noteq> None"
  shows "\<exists>brk dest1 k1 f1 d1. Read_bulk_body f d dest k n = Inr (brk, dest1, k1, f1, d1)
           \<and> buffer_ok f1 d1 \<and> blockBuffer f1 \<noteq> None"
proof -
  from Read_bulk_advance_ok [OF assms(1)] obtain brk f1 d1 where
    a: "Read_bulk_advance f d = Inr (brk, f1, d1)" "buffer_ok f1 d1" "blockBuffer f1 = blockBuffer f"
    by blast
  from Read_bulk_copy_ok [of f1 d1 dest k n] a assms(2) obtain dest2 k2 f2 d2 where
    c: "Read_bulk_copy f1 d1 dest k n = Inr (dest2, k2, f2, d2)" "buffer_ok f2 d2"
       "blockBuffer f2 \<noteq> None"
    by auto
  show ?thesis using a c assms(2) by (auto simp: Read_bulk_body_def)
qed

lemma Read_bulk_loop_ok:
  assumes "Read_bulk_loop f d dest k n = Some r" "buffer_ok f d" "blockBuffer f \<noteq> None"
  shows "\<exists>dest1 k1 f1 d1. r = Inr (dest1, k1, f1, d1) \<and> buffer_ok f1 d1 \<and> blockBuffer f1 \<noteq> None"
  using assms
proof (induction rule: Read_bulk_loop.raw_induct [rotated 1, consumes 1])
  case (1 loop f d dest k n r)
  show ?case
  proof (cases "k < n \<and> ucast (positionInBuffer f) + positionInFile f < fsize f")
    case False
    with 1(2-) show ?thesis by auto
  next
    case True
    from Read_bulk_body_ok [OF 1(3,4), of dest k n] obtain brk dest2 k2 f2 d2 where
      body: "Read_bulk_body f d dest k n = Inr (brk, dest2, k2, f2, d2)"
      and ok: "buffer_ok f2 d2" "blockBuffer f2 \<noteq> None"
      by blast
    show ?thesis
    proof (cases brk)
      case True
      with \<open>k < n \<and> _\<close> body 1(2) ok show ?thesis by auto
    next
      case False
      with \<open>k < n \<and> _\<close> body 1(2) have "loop f2 d2 dest2 k2 n = Some r" by simp
      from 1(1) [OF this ok] show ?thesis .
    qed
  qed
qed

lemma buffer_ok_eof [simp]: "buffer_ok (Read_bulk_eof f) d = buffer_ok f d"
  by (simp add: Read_bulk_eof_def)

lemma Read_bulk_ok:
  assumes "Read_bulk f d n = Some r" "buffer_ok f d"
  shows "\<exists>dest k f1 d1. r = Inr (dest, k, f1, d1) \<and> buffer_ok f1 d1"
proof (cases "blockBuffer f")
  case None
  with assms show ?thesis by (auto simp: Read_bulk_def)
next
  case (Some buf)
  from Read_bulk_first_ok [OF assms(2) Some, of n] obtain dest0 k0 f0 where
    first: "Read_bulk_first f buf n = Inr (dest0, k0, f0)" "buffer_ok f0 d" "blockBuffer f0 = Some buf"
    by blast
  from assms(1) Some first obtain r0 where l: "Read_bulk_loop f0 d dest0 k0 n = Some r0"
    by (auto simp: Read_bulk_def split: option.splits)
  from Read_bulk_loop_ok [OF l first(2)] first(3) obtain dest1 k1 f1 d1 where
    "r0 = Inr (dest1, k1, f1, d1)" "buffer_ok f1 d1"
    by auto
  with assms(1) Some first l show ?thesis by (auto simp: Read_bulk_def)
qed


lemma seek_offset_le:
  fixes p q :: TFileSize and b :: uint
  assumes "p \<le> q" "\<not> (q > p + ucast b)"
  shows "unat (q - p) \<le> unat b"
proof -
  from assms(1) have pq: "unat p \<le> unat q" by (simp add: word_le_nat_alt)
  from assms(2) have "unat q \<le> unat (p + ucast b)" by (simp add: word_less_nat_alt)
  then have "unat q \<le> unat p + unat b"
    using pq unat_uint_bound [of b]
    by (auto simp: unat_plus_if' [of p] unat_ucast_up split: if_splits)
  with pq show ?thesis by (simp add: unat_sub_file)
qed

lemma seek_position_ok:
  fixes p q :: TFileSize and b :: uint
  assumes "p \<le> q" "\<not> (q > p + ucast b)"
  shows "(ucast (q - p) :: uint) \<le> b"
proof -
  from seek_offset_le [OF assms] have le: "unat (q - p) \<le> unat b" .
  with unat_uint_bound [of b] have "unat (q - p) < 4294967296" by linarith
  then have "unat (ucast (q - p) :: uint) = unat (q - p)" by (rule unat_ucast_down)
  with le show ?thesis by (simp add: word_le_nat_alt)
qed

lemma Seek_body_frame:
  assumes "Seek_body f d = (failed, f1, d1)"
  shows "blockBuffer f1 = blockBuffer f \<and> blockSize f1 = blockSize f
         \<and> positionInBuffer f1 = positionInBuffer f \<and> drvBlockSize d1 = drvBlockSize d
         \<and> (\<not> failed \<longrightarrow> positionInFile f1 = positionInFile f + ucast (blockSize f))"
  using assms
  by (auto simp: Seek_body_def Driver_EndOfFile_def GetBlocksPerNode_def GetNextChunk_def Let_def
      split: if_splits prod.splits)

lemma Seek_loop_frame:
  assumes "Seek_loop f d pos = Some r" "positionInFile f \<le> pos"
  shows "blockBuffer (fst (snd r)) = blockBuffer f \<and> blockSize (fst (snd r)) = blockSize f
         \<and> positionInBuffer (fst (snd r)) = positionInBuffer f
         \<and> drvBlockSize (snd (snd r)) = drvBlockSize d
         \<and> (\<not> fst r \<longrightarrow> positionInFile (fst (snd r)) \<le> pos
               \<and> \<not> (pos > positionInFile (fst (snd r)) + ucast (blockSize f)))"
  using assms
proof (induction rule: Seek_loop.raw_induct [rotated 1, consumes 1])
  case (1 loop f d pos r)
  show ?case
  proof (cases "pos > positionInFile f + ucast (blockSize f)")
    case False
    with 1(2,3) show ?thesis by auto
  next
    case True
    obtain fl f2 d2 where body: "Seek_body f d = (fl, f2, d2)"
      by (cases "Seek_body f d") auto
    note fr = Seek_body_frame [OF body]
    show ?thesis
    proof (cases fl)
      case True
      with \<open>pos > _\<close> body 1(2) have "r = (True, f2, d2)" by simp
      with fr show ?thesis by simp
    next
      case False
      with \<open>pos > _\<close> body 1(2) have l: "loop f2 d2 pos = Some r" by simp
      from False fr \<open>pos > _\<close> have "positionInFile f2 \<le> pos" by simp
      from 1(1) [OF l this] fr show ?thesis by simp
    qed
  qed
qed

lemma Seek_exit_ok:
  assumes "Seek_exit f d pos = Some r" "buffer_ok f d"
  shows "\<exists>x f1 d1. r = Inr (x, f1, d1) \<and> buffer_ok f1 d1"
proof (cases "blockBuffer f")
  case None
  with assms show ?thesis by (auto simp: Seek_exit_def)
next
  case (Some buf)
  from assms(2) Some have len: "length buf = unat (drvBlockSize d)"
    and bs: "blockSize f = drvBlockSize d" and pos: "0 < blockSize f"
    by (auto simp: buffer_ok_def)
  show ?thesis
  proof (cases "pos \<ge> positionInFile f + ucast (blockSize f) \<or> pos < positionInFile f")
    case False
    then have "positionInFile f \<le> pos" "\<not> (pos > positionInFile f + ucast (blockSize f))"
      by auto
    from seek_position_ok [OF this] assms Some False show ?thesis
      by (auto simp: Seek_exit_def Let_def buffer_ok_def)
  next
    case True
    define f1 where "f1 = (if pos < positionInFile f
                           then f\<lparr>current := firstNode f, positionInFile := 0\<rparr> else f)"
    have f1: "blockBuffer f1 = Some buf" "blockSize f1 = blockSize f" "buffer_ok f1 d"
      "positionInFile f1 \<le> pos" "positionInBuffer f1 = positionInBuffer f"
      using Some assms(2) by (auto simp: f1_def)
    from Flush_ok [OF f1(3)] obtain d1 where fl: "Flush f1 d = Inr d1" and ok1: "buffer_ok f1 d1"
      by blast
    from assms(1) Some True fl obtain r1 where l: "Seek_loop f1 d1 pos = Some r1"
      by (auto simp: Seek_exit_def Let_def f1_def [symmetric] split: option.splits)
    obtain failed f2 d2 where r1: "r1 = (failed, f2, d2)" by (cases r1) auto
    from ok1 f1(2) bs have d1: "drvBlockSize d1 = drvBlockSize d"
      by (simp add: buffer_ok_def)
    from Seek_loop_frame [OF l f1(4)] r1 f1 d1
    have fr: "blockBuffer f2 = Some buf" "blockSize f2 = blockSize f"
      "positionInBuffer f2 = positionInBuffer f" "drvBlockSize d2 = drvBlockSize d"
      "\<not> failed \<Longrightarrow> positionInFile f2 \<le> pos"
      "\<not> failed \<Longrightarrow> \<not> (pos > positionInFile f2 + ucast (blockSize f))"
      by auto
    have ok2: "buffer_ok f2 d2" using assms(2) fr Some by (auto simp: buffer_ok_def)
    show ?thesis
    proof (cases failed)
      case True
      with assms(1) Some \<open>_ \<or> _\<close> fl l r1 ok2 show ?thesis
        by (auto simp: Seek_exit_def Let_def f1_def [symmetric])
    next
      case False
      from seek_position_ok [OF fr(5,6) [OF False]]
      have p: "(ucast (pos - positionInFile f2) :: uint) \<le> blockSize f" .
      have rb: "ReadBlock d2 (current f2 + blockInChunk f2) buf =
                  Inr (map (drvStorage d2 (current f2 + blockInChunk f2)) [0..<unat (drvBlockSize d2)],
                       logCall (CallReadBlock (current f2 + blockInChunk f2)) d2)"
        using len fr(4) by (simp add: ReadBlock_ok)
      from False assms(1) Some \<open>_ \<or> _\<close> fl l r1 rb p ok2 fr show ?thesis
        by (auto simp: Seek_exit_def Let_def f1_def [symmetric] buffer_ok_def)
    qed
  qed
qed

lemma Seek_ok:
  assumes "Seek f d pos = Some r" "buffer_ok f d"
  shows "\<exists>x f1 d1. r = Inr (x, f1, d1) \<and> buffer_ok f1 d1"
proof -
  from assms(1) obtain r0 where e: "Seek_exit f d pos = Some r0"
    by (auto simp: Seek_def split: option.splits)
  from Seek_exit_ok [OF e assms(2)] assms(1) e show ?thesis
    by (auto simp: Seek_def)
qed

lemma Open_ok:
  assumes "buffer_ok f d"
  shows "buffer_ok (fst (snd (Open f d resolve mem filePath))) (snd (snd (Open f d resolve mem filePath)))"
  using assms
  by (auto simp: Open_def GetParameter_def Let_def buffer_ok_def new_nothrow_def
      split: option.splits prod.splits)

lemma apply_op_ok:
  assumes "apply_op op f d = Some r" "buffer_ok f d"
  shows "\<exists>f1 d1. r = Inr (f1, d1) \<and> buffer_ok f1 d1"
proof (cases op)
  case (OpOpen resolve mem filePath)
  with assms Open_ok [OF assms(2), of resolve mem filePath] show ?thesis
    by (auto split: prod.splits)
next
  case OpRead
  with assms Read_ok [OF assms(2)] show ?thesis by auto
next
  case (OpReadBulk n)
  with assms obtain r0 where b: "Read_bulk f d n = Some r0" by (auto split: option.splits)
  from Read_bulk_ok [OF b assms(2)] OpReadBulk assms(1) b show ?thesis by auto
next
  case (OpWrite v)
  with assms show ?thesis by (auto simp: Write_def)
next
  case (OpSeek pos)
  with assms obtain r0 where b: "Seek f d pos = Some r0" by (auto split: option.splits)
  from Seek_ok [OF b assms(2)] OpSeek assms(1) b show ?thesis by auto
next
  case OpFlush
  with assms Flush_ok [OF assms(2)] show ?thesis by auto
qed


lemma ctor_buffer_ok:
  assumes "0 < drvBlockSize d"
  shows "buffer_ok (fst (File_ctor d)) (snd (File_ctor d))"
    and "buffer_ok (fst (File_ctor_node d node sz mem)) (snd (File_ctor_node d node sz mem))"
  using assms
  by (auto simp: File_ctor_def File_ctor_node_def GetParameter_def Let_def buffer_ok_def
      new_nothrow_def split: option.splits)




lemma Flush_config:
  "Flush f d = Inr d1 \<Longrightarrow>
     drvBlockSize d1 = drvBlockSize d \<and> drvEndOfFile d1 = drvEndOfFile d
     \<and> drvBlocksPerNode d1 = drvBlocksPerNode d \<and> drvNextChunk d1 = drvNextChunk d"
  by (auto simp: Flush_def Driver_EndOfFile_def WriteBlock_def Let_def logCall_def
      split: option.splits if_splits)








lemma ctor_path_buffer_ok:
  assumes "0 < drvBlockSize d"
    and "buf0 = None \<or> (\<exists>b. buf0 = Some b \<and> length b = unat (drvBlockSize d))"
  shows "buffer_ok (fst (File_ctor_path d resolve mem filePath node0 buf0 n0))
           (snd (File_ctor_path d resolve mem filePath node0 buf0 n0))"
  using assms
  by (auto simp: File_ctor_path_def Open_def GetParameter_def Let_def buffer_ok_def
      new_nothrow_def split: option.splits prod.splits)




subsection \<open>The position stays inside the file\<close>

lemma position_word:
  assumes "position f < 18446744073709551616"
  shows "unat (ucast (positionInBuffer f) + positionInFile f) = position f"
  using assms by (simp add: position_def unat_add_file unat_ucast_up add.commute)

lemma unat_uint_Suc:
  assumes "(x :: uint) < y"
  shows "unat (x + 1) = unat x + 1"
proof -
  from assms have "unat x < unat y" by (simp add: word_less_nat_alt)
  with unat_uint_bound [of y] have "unat x + unat (1 :: uint) < 4294967296" by simp
  then have "unat (x + 1) = unat x + unat (1 :: uint)" by (rule unat_uint_add)
  then show ?thesis by simp
qed

lemma Read_byte_result:
  assumes "blockBuffer f = Some buf" "unat (positionInBuffer f) < length buf"
  shows "Read_byte f d =
           Inr (buf ! unat (positionInBuffer f),
                (if ucast (positionInBuffer f + 1) + positionInFile f \<ge> fsize f
                 then f\<lparr>positionInBuffer := positionInBuffer f + 1,
                        flags := flags f \<union> {FileFlagEof}\<rparr>
                 else f\<lparr>positionInBuffer := positionInBuffer f + 1\<rparr>), d)"
  using assms by (simp add: Read_byte_def Let_def)

lemma Read_byte_inside:
  assumes "buffer_ok f d" "positionInBuffer f < blockSize f" "Read_byte f d = Inr (b, f1, d1)"
    "position f < unat (fsize f)" "unat (fsize f) < 4294967296"
  shows "inside f1 \<and> fsize f1 = fsize f \<and> position f1 = position f + 1"
proof -
  from assms(1,2) obtain buf where b: "blockBuffer f = Some buf" "unat (positionInBuffer f) < length buf"
    by (auto simp: buffer_ok_def word_less_nat_alt split: option.splits)
  from assms(2) have "positionInBuffer f + 1 \<le> blockSize f" by (rule inc_le)
  have one: "unat (positionInBuffer f + 1) = unat (positionInBuffer f) + 1"
    using assms(2) by (rule unat_uint_Suc)
  let ?g = "f\<lparr>positionInBuffer := positionInBuffer f + 1\<rparr>"
  have pg: "position ?g = position f + 1" by (simp add: position_def one)
  have w: "unat (ucast (positionInBuffer ?g) + positionInFile ?g) = position ?g"
    using assms(4,5) pg by (intro position_word) simp
  have c: "(ucast (positionInBuffer f + 1) + positionInFile f \<ge> fsize f) \<longleftrightarrow> position f + 1 \<ge> unat (fsize f)"
    using w pg by (simp add: word_le_nat_alt)
  from assms(3) show ?thesis
    using assms(4,5) pg c
    by (auto simp: Read_byte_result [OF b] inside_def position_def unloaded_def split: if_splits)
qed


lemma inside_flags:
  "inside f \<Longrightarrow> inside (f\<lparr>flags := flags f \<union> {FileFlagEof}\<rparr>)"
  by (auto simp: inside_def unloaded_def position_def)

lemma inside_blockInChunk [simp]: "inside (f\<lparr>blockInChunk := k\<rparr>) = inside f"
  by (simp add: inside_def unloaded_def position_def)

lemma Read_fetch_inside:
  assumes "buffer_ok g e" "blockBuffer g \<noteq> None" "Read_fetch g e = Inr (b, f1, d1)"
    "unat (positionInFile g) < unat (fsize g)" "unat (fsize g) < 4294967296"
  shows "inside f1 \<and> fsize f1 = fsize g \<and> position f1 = unat (positionInFile g) + 1"
proof -
  from assms(1,2) obtain buf where b: "blockBuffer g = Some buf" "length buf = unat (drvBlockSize e)"
    by (auto simp: buffer_ok_def split: option.splits)
  let ?a = "current g + blockInChunk g"
  let ?g1 = "g\<lparr>blockBuffer := Some (map (drvStorage e ?a) [0..<unat (drvBlockSize e)]),
               positionInBuffer := 0\<rparr>"
  let ?e1 = "logCall (CallReadBlock ?a) e"
  have l: "Read_load g e = Inr (?g1, ?e1)"
    by (simp add: Read_load_def b ReadBlock_ok)
  with assms(3) have rb: "Read_byte ?g1 ?e1 = Inr (b, f1, d1)"
    by (simp add: Read_fetch_def)
  have ok: "buffer_ok ?g1 ?e1" using assms(1) by (auto simp: buffer_ok_def)
  have lt: "positionInBuffer ?g1 < blockSize ?g1" using assms(1) by (auto simp: buffer_ok_def)
  have p: "position ?g1 = unat (positionInFile g)" by (simp add: position_def)
  from Read_byte_inside [OF ok lt rb] assms(4,5) p show ?thesis by simp
qed

lemma unat_advance:
  assumes "unat (positionInFile f) + unat (blockSize f) < 18446744073709551616"
  shows "unat (positionInFile f + ucast (blockSize f)) = unat (positionInFile f) + unat (blockSize f)"
  using assms by (simp add: unat_add_file unat_ucast_up)

lemma Read_inside:
  assumes "buffer_ok f d" "inside f" "0 < unat (fsize f)" "\<not> EndOfFile f"
    "Read f d = Inr (b, f1, d1)"
  shows "inside f1 \<and> fsize f1 = fsize f"
proof -
  from assms(2) have small: "unat (fsize f) < 4294967296" by (simp add: inside_def)
  have loaded: "position f < unat (fsize f)" if "\<not> unloaded f"
    using that assms(2,4) by (auto simp: inside_def EndOfFile_def)
  from assms(1) have le: "positionInBuffer f \<le> blockSize f" by (auto simp: buffer_ok_def)
  show ?thesis
  proof (cases "positionInBuffer f \<ge> blockSize f")
    case False
    then have lt: "positionInBuffer f < blockSize f" by simp
    then have "\<not> unloaded f" by (auto simp: unloaded_def)
    from Read_byte_inside [OF assms(1) lt _ loaded [OF this] small] False assms(5)
    show ?thesis by (simp add: Read_def)
  next
    case True
    with le have full: "positionInBuffer f = blockSize f" by simp
    show ?thesis
    proof (cases "blockBuffer f")
      case None
      with True assms show ?thesis by (simp add: Read_def)
    next
      case (Some buf)
      have via: "inside f1 \<and> fsize f1 = fsize f"
        if "Read_fetch g e = Inr (b, f1, d1)" "buffer_ok g e" "blockBuffer g = Some buf"
          "fsize g = fsize f" "unat (positionInFile g) < unat (fsize f)" for g e
        using Read_fetch_inside [OF that(2) _ that(1)] that(3-) small by simp
      show ?thesis
      proof (cases "current f = 0")
        case True
        with \<open>blockSize f \<le> _\<close> assms(5) Some
        have "Read_fetch (f\<lparr>current := firstNode f, positionInFile := 0\<rparr>) d = Inr (b, f1, d1)"
          by (simp add: Read_def)
        from via [OF this] assms(1,3) Some show ?thesis by simp
      next
        case False
        then have nu: "\<not> unloaded f" by (simp add: unloaded_def)
        from loaded [OF nu] full have adv: "unat (positionInFile f) + unat (blockSize f) < unat (fsize f)"
          by (simp add: position_def)
        with small have
          pf: "unat (positionInFile f + ucast (blockSize f)) = unat (positionInFile f) + unat (blockSize f)"
          by (intro unat_advance) simp
        let ?d1 = "logCall (CallEndOfFile (current f)) d"
        show ?thesis
        proof (cases "drvEndOfFile d (current f)")
          case True
          with \<open>blockSize f \<le> _\<close> assms Some False show ?thesis
            by (auto simp: Read_def Driver_EndOfFile_def)
        next
          case eof: False
          obtain d2 where fl: "Flush f ?d1 = Inr d2" and ok2: "buffer_ok f d2"
            using Flush_ok [of f ?d1] assms(1) by auto
          show ?thesis
          proof (cases "drvBlocksPerNode d2 (current f) \<le> blockInChunk f + 1")
            case hop: True
            show ?thesis
            proof (cases "drvEndOfFile d2 (drvNextChunk d2 (current f))")
              case True
              with hop \<open>blockSize f \<le> _\<close> assms(5) Some False eof fl
              have "f1 = f\<lparr>blockInChunk := 0, flags := flags f \<union> {FileFlagEof}\<rparr>"
                by (auto simp: Read_def Driver_EndOfFile_def GetBlocksPerNode_def GetNextChunk_def Let_def)
              with assms(2) show ?thesis
                by (auto simp: inside_def unloaded_def position_def)
            next
              case nx: False
              let ?g = "f\<lparr>blockInChunk := 0, flags := flags f - {FileFlagEof},
                          current := drvNextChunk d2 (current f),
                          positionInFile := positionInFile f + ucast (blockSize f)\<rparr>"
              let ?e = "logCall (CallEndOfFile (drvNextChunk d2 (current f)))
                          (logCall (CallGetNextChunk (current f))
                            (logCall (CallGetBlocksPerNode (current f)) d2))"
              from nx hop \<open>blockSize f \<le> _\<close> assms(5) Some False eof fl
              have "Read_fetch ?g ?e = Inr (b, f1, d1)"
                by (simp add: Read_def Driver_EndOfFile_def GetBlocksPerNode_def GetNextChunk_def Let_def)
              from via [OF this] ok2 Some pf adv show ?thesis by simp
            qed
          next
            case nohop: False
            let ?g = "f\<lparr>blockInChunk := blockInChunk f + 1,
                        positionInFile := positionInFile f + ucast (blockSize f)\<rparr>"
            let ?e = "logCall (CallGetBlocksPerNode (current f)) d2"
            from nohop \<open>blockSize f \<le> _\<close> assms(5) Some False eof fl
            have "Read_fetch ?g ?e = Inr (b, f1, d1)"
              by (simp add: Read_def Driver_EndOfFile_def GetBlocksPerNode_def GetNextChunk_def Let_def)
            from via [OF this] ok2 Some pf adv show ?thesis by simp
          qed
        qed
      qed
    qed
  qed
qed


lemma Read_bulk_advance_frame:
  assumes "Read_bulk_advance f d = Inr (brk, g, e)"
  shows "fsize g = fsize f \<and> blockSize g = blockSize f
         \<and> positionInBuffer g = positionInBuffer f \<and> blockBuffer g = blockBuffer f
         \<and> firstNode g = firstNode f
         \<and> (brk \<longrightarrow> current f \<noteq> 0 \<and> positionInFile g = positionInFile f
                      \<and> current g = current f)
         \<and> (\<not> brk \<longrightarrow>
               (if current f = 0 then positionInFile g = 0 \<and> current g = firstNode f
                else positionInFile g = positionInFile f + ucast (blockSize f)))"
  using assms
  by (auto simp: Read_bulk_advance_def Driver_EndOfFile_def GetBlocksPerNode_def
      GetNextChunk_def Let_def split: if_splits sum.splits)

lemma Read_bulk_copy_frame:
  assumes "Read_bulk_copy g e dest k n = Inr (dest1, k1, f1, d1)"
  shows "\<exists>c. k1 = k + c \<and> positionInBuffer f1 = c
             \<and> c = (if min (n - k) (blockSize g)
                         > (if positionInFile g < fsize g
                            then ucast (fsize g - positionInFile g) else 0)
                     then (if positionInFile g < fsize g
                           then ucast (fsize g - positionInFile g) else 0)
                     else min (n - k) (blockSize g))
             \<and> positionInFile f1 = positionInFile g \<and> fsize f1 = fsize g
             \<and> blockSize f1 = blockSize g \<and> current f1 = current g
             \<and> firstNode f1 = firstNode g"
  using assms
  by (auto simp: Read_bulk_copy_def Let_def split: option.splits sum.splits if_splits)

lemma unat_remaining:
  fixes p sz :: TFileSize
  assumes "unat p < unat sz" "unat sz < 4294967296"
  shows "unat (ucast (sz - p) :: uint) = unat sz - unat p"
proof -
  from assms(1) have "unat (sz - p) = unat sz - unat p" by (intro unat_sub_file) simp
  moreover from this assms(2) have "unat (sz - p) < 4294967296" by simp
  ultimately show ?thesis by (simp add: unat_ucast_down)
qed

lemma Read_bulk_body_inside:
  assumes "Read_bulk_body f d dest k n = Inr (brk, dest1, k1, f1, d1)"
    and small: "unat (fsize f) < 4294967296"
    and pos: "unloaded f \<or> position f \<le> unat (fsize f)"
    and full: "positionInBuffer f = blockSize f"
    and cond: "ucast (positionInBuffer f) + positionInFile f < fsize f" "k < n"
  shows "fsize f1 = fsize f \<and> (unloaded f1 \<or> position f1 \<le> unat (fsize f))
         \<and> (\<not> brk \<and> k1 < n \<and> position f1 < unat (fsize f)
               \<longrightarrow> positionInBuffer f1 = blockSize f1)"
proof -
  from assms(1) obtain b0 g e where a: "Read_bulk_advance f d = Inr (b0, g, e)"
    by (auto simp: Read_bulk_body_def split: sum.splits)
  note fr = Read_bulk_advance_frame [OF a]
  show ?thesis
  proof (cases b0)
    case True
    with assms(1) a have "f1 = g" "brk" by (auto simp: Read_bulk_body_def)
    with fr True pos show ?thesis by (auto simp: unloaded_def position_def)
  next
    case False
    with assms(1) a have c: "Read_bulk_copy g e dest k n = Inr (dest1, k1, f1, d1)"
      by (auto simp: Read_bulk_body_def split: sum.splits)
    from cond(1) have s0: "0 < unat (fsize f)" by (simp add: word_less_nat_alt)
    have pg: "unat (positionInFile g) < unat (fsize f)"
    proof (cases "current f = 0")
      case True
      with fr False s0 show ?thesis by simp
    next
      case nz: False
      then have "\<not> unloaded f" by (simp add: unloaded_def)
      with pos have le: "position f \<le> unat (fsize f)" by simp
      with small have "unat (ucast (positionInBuffer f) + positionInFile f) = position f"
        by (intro position_word) simp
      with cond(1) have lt: "position f < unat (fsize f)" by (simp add: word_less_nat_alt)
      with full small have
        "unat (positionInFile f + ucast (blockSize f)) = unat (positionInFile f) + unat (blockSize f)"
        by (intro unat_advance) (simp add: position_def)
      with fr False nz lt full show ?thesis by (simp add: position_def)
    qed
    define total :: uint where "total = ucast (fsize g - positionInFile g)"
    have total: "unat total = unat (fsize f) - unat (positionInFile g)"
      unfolding total_def using pg small fr by (simp add: unat_remaining)
    from pg fr have lt: "positionInFile g < fsize g" by (simp add: word_less_nat_alt)
    define c0 where "c0 = min (n - k) (blockSize g)"
    from Read_bulk_copy_frame [OF c] lt obtain c where
      c1: "k1 = k + c" "positionInBuffer f1 = c" "c = (if c0 > total then total else c0)"
      "positionInFile f1 = positionInFile g" "fsize f1 = fsize g" "blockSize f1 = blockSize g"
      by (auto simp: total_def c0_def)
    have cle: "unat c \<le> unat total" using c1(3) by (auto simp: word_le_nat_alt word_less_nat_alt)
    have p1: "position f1 = unat (positionInFile g) + unat c" by (simp add: position_def c1)
    have le1: "position f1 \<le> unat (fsize f)" using p1 cle total pg by simp
    have "positionInBuffer f1 = blockSize f1" if "k1 < n" "position f1 < unat (fsize f)"
    proof -
      from that(2) p1 total have "c \<noteq> total" by auto
      with c1(3) have cc: "c = c0" by (auto split: if_splits)
      from cond(2) have "k + (n - k) = n" by simp
      with that(1) c1(1) have "c \<noteq> n - k" by auto
      with cc have "c = blockSize g" by (auto simp: c0_def min_def split: if_splits)
      with c1 show ?thesis by simp
    qed
    with le1 c1 fr show ?thesis by simp
  qed
qed


lemma wcond_position:
  assumes "position f \<le> unat (fsize f)"
  shows "(ucast (positionInBuffer f) + positionInFile f < fsize f) \<longleftrightarrow> position f < unat (fsize f)"
proof -
  from assms unat_size_bound [of "fsize f"] have "position f < 18446744073709551616" by simp
  then have "unat (ucast (positionInBuffer f) + positionInFile f) = position f"
    by (rule position_word)
  then show ?thesis by (simp add: word_less_nat_alt)
qed

lemma Read_bulk_loop_inside:
  assumes "Read_bulk_loop f d dest k n = Some r"
    and "unat (fsize f) < 4294967296"
    and "unloaded f \<or> position f \<le> unat (fsize f)"
    and "k < n \<and> ucast (positionInBuffer f) + positionInFile f < fsize f
           \<longrightarrow> positionInBuffer f = blockSize f"
  shows "\<forall>dest1 k1 f1 d1. r = Inr (dest1, k1, f1, d1) \<longrightarrow>
           fsize f1 = fsize f \<and> (unloaded f1 \<or> position f1 \<le> unat (fsize f))"
  using assms
proof (induction rule: Read_bulk_loop.raw_induct [rotated 1, consumes 1])
  case (1 loop f d dest k n r)
  show ?case
  proof (cases "k < n \<and> ucast (positionInBuffer f) + positionInFile f < fsize f")
    case False
    with 1(2,4) show ?thesis by auto
  next
    case True
    with 1(5) have full: "positionInBuffer f = blockSize f" by simp
    show ?thesis
    proof (intro allI impI)
      fix dest1 k1 f1 d1
      assume r: "r = Inr (dest1, k1, f1, d1)"
      from True 1(2) r obtain brk dest2 k2 f2 d2 where
        body: "Read_bulk_body f d dest k n = Inr (brk, dest2, k2, f2, d2)"
        and rest: "if brk then r = Inr (dest2, k2, f2, d2) else loop f2 d2 dest2 k2 n = Some r"
        by (auto split: sum.splits if_splits)
      from Read_bulk_body_inside [OF body 1(3,4) full] True
      have b: "fsize f2 = fsize f" "unloaded f2 \<or> position f2 \<le> unat (fsize f)"
        "\<not> brk \<and> k2 < n \<and> position f2 < unat (fsize f) \<longrightarrow> positionInBuffer f2 = blockSize f2"
        by auto
      show "fsize f1 = fsize f \<and> (unloaded f1 \<or> position f1 \<le> unat (fsize f))"
      proof (cases brk)
        case True
        with rest r b show ?thesis by simp
      next
        case False
        with rest have l: "loop f2 d2 dest2 k2 n = Some r" by simp
        have e: "k2 < n \<and> ucast (positionInBuffer f2) + positionInFile f2 < fsize f2
                 \<longrightarrow> positionInBuffer f2 = blockSize f2"
        proof (cases "unloaded f2")
          case True
          then show ?thesis by (simp add: unloaded_def)
        next
          case nu: False
          with b have "position f2 \<le> unat (fsize f2)" by simp
          from wcond_position [OF this] b(1,3) False show ?thesis by simp
        qed
        from 1(1) [OF l _ _ e] b 1(3) r show ?thesis by simp
      qed
    qed
  qed
qed

lemma Read_bulk_first_inside:
  assumes "buffer_ok f d" "blockBuffer f = Some buf"
    and "unat (fsize f) < 4294967296"
    and "unloaded f \<or> position f \<le> unat (fsize f)"
    and "Read_bulk_first f buf n = Inr (dest, k, f1)"
  shows "fsize f1 = fsize f \<and> (unloaded f1 \<or> position f1 \<le> unat (fsize f))
         \<and> (k < n \<and> ucast (positionInBuffer f1) + positionInFile f1 < fsize f1
               \<longrightarrow> positionInBuffer f1 = blockSize f1)"
proof (cases "positionInBuffer f = blockSize f")
  case True
  with Read_bulk_first_ok [OF assms(1,2), of n] assms(5) have "f1 = f" by auto
  with True assms(4) show ?thesis by simp
next
  case False
  then have nu: "\<not> unloaded f" by (simp add: unloaded_def)
  with assms(4) have le: "position f \<le> unat (fsize f)" by simp
  from assms(1) have ple: "positionInBuffer f \<le> blockSize f" by (auto simp: buffer_ok_def)
  define total :: uint where
    "total = (if ucast (positionInBuffer f) + positionInFile f < fsize f
              then ucast (fsize f - (ucast (positionInBuffer f) + positionInFile f)) else 0)"
  define k0 where "k0 = min n (blockSize f - positionInBuffer f)"
  have w: "unat (ucast (positionInBuffer f) + positionInFile f) = position f"
    using le unat_size_bound [of "fsize f"] by (intro position_word) simp
  have total: "unat total = unat (fsize f) - position f"
  proof (cases "position f < unat (fsize f)")
    case True
    with wcond_position [OF le] have "total = ucast (fsize f - (ucast (positionInBuffer f) + positionInFile f))"
      by (simp add: total_def)
    moreover have "unat (ucast (fsize f - (ucast (positionInBuffer f) + positionInFile f)) :: uint)
                     = unat (fsize f) - unat (ucast (positionInBuffer f) + positionInFile f)"
      using True w assms(3) by (intro unat_remaining) simp_all
    ultimately show ?thesis by (simp add: w)
  next
    case False
    with wcond_position [OF le] le show ?thesis by (simp add: total_def)
  qed
  have r: "Read_bulk_first f buf n =
        (case memcpy_from buf (positionInBuffer f) (if k0 > total then total else k0) of
           Inl e \<Rightarrow> Inl e
         | Inr dest \<Rightarrow> Inr (dest, (if k0 > total then total else k0),
               f\<lparr>positionInBuffer := positionInBuffer f + (if k0 > total then total else k0)\<rparr>))"
    unfolding Read_bulk_first_def Let_def k0_def total_def ..
  with assms(5) have k: "k = (if k0 > total then total else k0)"
    and f1: "f1 = f\<lparr>positionInBuffer := positionInBuffer f + k\<rparr>"
    by (auto split: sum.splits)
  have kt: "unat k \<le> unat total" using k by (auto simp: word_le_nat_alt word_less_nat_alt)
  have "k \<le> k0" using k by auto
  also have "k0 \<le> blockSize f - positionInBuffer f" by (simp add: k0_def)
  finally have "unat k \<le> unat (blockSize f - positionInBuffer f)" by (simp add: word_le_nat_alt)
  with ple have kb: "unat k \<le> unat (blockSize f) - unat (positionInBuffer f)"
    by (simp add: unat_uint_sub)
  from ple have pb: "unat (positionInBuffer f) \<le> unat (blockSize f)" by (simp add: word_le_nat_alt)
  have sum: "unat (positionInBuffer f + k) = unat (positionInBuffer f) + unat k"
    using kb pb unat_uint_bound [of "blockSize f"] by (intro unat_uint_add) linarith
  have p1: "position f1 = position f + unat k" by (simp add: f1 position_def sum)
  have le1: "position f1 \<le> unat (fsize f)" using p1 kt total le by simp
  have "positionInBuffer f1 = blockSize f1"
    if "k < n" "ucast (positionInBuffer f1) + positionInFile f1 < fsize f1"
  proof -
    from le1 f1 have "position f1 \<le> unat (fsize f1)" by simp
    from wcond_position [OF this] that(2) f1 have lt: "position f1 < unat (fsize f)" by simp
    with p1 total have "k \<noteq> total" by auto
    with k have kk: "k = k0" by (auto split: if_splits)
    with that(1) have "k = blockSize f - positionInBuffer f"
      by (auto simp: k0_def min_def split: if_splits)
    with f1 show ?thesis by simp
  qed
  with le1 f1 show ?thesis by simp
qed

lemma inside_eof:
  assumes "unat (fsize f) < 4294967296" "unloaded f \<or> position f \<le> unat (fsize f)"
  shows "inside (Read_bulk_eof f)"
proof (cases "unloaded f")
  case True
  with assms(1) show ?thesis by (simp add: inside_def Read_bulk_eof_def unloaded_def)
next
  case False
  with assms(2) have le: "position f \<le> unat (fsize f)" by simp
  from wcond_position [OF le] le assms(1) show ?thesis
    by (auto simp: inside_def Read_bulk_eof_def position_def not_less [symmetric])
qed

lemma Read_bulk_inside:
  assumes "buffer_ok f d" "inside f" "Read_bulk f d n = Some (Inr (dest, k, f1, d1))"
  shows "inside f1 \<and> fsize f1 = fsize f"
proof (cases "blockBuffer f")
  case None
  with assms show ?thesis by (simp add: Read_bulk_def)
next
  case (Some buf)
  from assms(2) have small: "unat (fsize f) < 4294967296"
    and pos: "unloaded f \<or> position f \<le> unat (fsize f)"
    by (auto simp: inside_def)
  from assms(3) Some obtain dest0 k0 f0 f2 where
    first: "Read_bulk_first f buf n = Inr (dest0, k0, f0)"
    and loop: "Read_bulk_loop f0 d dest0 k0 n = Some (Inr (dest, k, f2, d1))"
    and f1: "f1 = Read_bulk_eof f2"
    by (auto simp: Read_bulk_def split: option.splits sum.splits)
  from Read_bulk_first_inside [OF assms(1) Some small pos first]
  have a: "fsize f0 = fsize f" "unloaded f0 \<or> position f0 \<le> unat (fsize f)"
    "k0 < n \<and> ucast (positionInBuffer f0) + positionInFile f0 < fsize f0
       \<longrightarrow> positionInBuffer f0 = blockSize f0"
    by auto
  from Read_bulk_loop_inside [OF loop _ _ a(3)] a small
  have b: "fsize f2 = fsize f" "unloaded f2 \<or> position f2 \<le> unat (fsize f)" by auto
  from inside_eof [of f2] b small f1 show ?thesis by (simp add: Read_bulk_eof_def)
qed


lemma Seek_body_position:
  assumes "Seek_body f d = (failed, f1, d1)"
  shows "fsize f1 = fsize f \<and> (failed \<longrightarrow> positionInFile f1 = positionInFile f)"
  using assms
  by (auto simp: Seek_body_def Driver_EndOfFile_def GetBlocksPerNode_def GetNextChunk_def Let_def
      split: if_splits prod.splits)

lemma Seek_loop_position:
  assumes "Seek_loop f d pos = Some r" "positionInFile f \<le> pos"
  shows "fsize (fst (snd r)) = fsize f
         \<and> (fst r \<longrightarrow> positionInFile (fst (snd r)) \<le> pos
               \<and> pos > positionInFile (fst (snd r)) + ucast (blockSize f))"
  using assms
proof (induction rule: Seek_loop.raw_induct [rotated 1, consumes 1])
  case (1 loop f d pos r)
  show ?case
  proof (cases "pos > positionInFile f + ucast (blockSize f)")
    case False
    with 1(2,3) show ?thesis by auto
  next
    case True
    obtain fl f2 d2 where body: "Seek_body f d = (fl, f2, d2)"
      by (cases "Seek_body f d") auto
    note fr = Seek_body_frame [OF body] Seek_body_position [OF body]
    show ?thesis
    proof (cases fl)
      case True
      with \<open>pos > _\<close> body 1(2) have "r = (True, f2, d2)" by simp
      with fr True \<open>pos > _\<close> 1(3) show ?thesis by simp
    next
      case False
      with \<open>pos > _\<close> body 1(2) have l: "loop f2 d2 pos = Some r" by simp
      from False fr \<open>pos > _\<close> have "positionInFile f2 \<le> pos" by simp
      from 1(1) [OF l this] fr show ?thesis by simp
    qed
  qed
qed

lemma seek_offset:
  fixes p q :: TFileSize
  assumes "p \<le> q" "unat q < 4294967296"
  shows "unat (ucast (q - p) :: uint) = unat q - unat p"
proof -
  from assms(1) have "unat (q - p) = unat q - unat p" by (intro unat_sub_file) (simp add: word_le_nat_alt)
  moreover from this assms(2) have "unat (q - p) < 4294967296" by simp
  ultimately show ?thesis by (simp add: unat_ucast_down)
qed

lemma Seek_exit_inside:
  assumes "buffer_ok f d" "inside f" "pos < fsize f" "Seek_exit f d pos = Some (Inr (x, f1, d1))"
  shows "inside f1 \<and> fsize f1 = fsize f"
proof (cases "blockBuffer f")
  case None
  with assms show ?thesis by (auto simp: Seek_exit_def)
next
  case (Some buf)
  from assms(2) have small: "unat (fsize f) < 4294967296" by (simp add: inside_def)
  from assms(3) have lt: "unat pos < unat (fsize f)" by (simp add: word_less_nat_alt)
  with small have psmall: "unat pos < 4294967296" by simp
  from assms(1) have ple: "unat (positionInBuffer f) \<le> unat (blockSize f)"
    by (auto simp: buffer_ok_def word_le_nat_alt)
  have landed: "inside g"
    if "positionInFile g0 \<le> pos" "fsize g = fsize f" "positionInFile g = positionInFile g0"
      "positionInBuffer g = ucast (pos - positionInFile g0)" for g g0 :: File
  proof -
    from seek_offset [OF that(1) psmall] that(1) have "position g = unat pos"
      by (simp add: position_def that word_le_nat_alt)
    with lt small that(2) show ?thesis by (simp add: inside_def)
  qed
  show ?thesis
  proof (cases "pos \<ge> positionInFile f + ucast (blockSize f) \<or> pos < positionInFile f")
    case False
    then have le: "positionInFile f \<le> pos" by auto
    from False assms(4) Some
    have f1: "f1 = f\<lparr>positionInBuffer := ucast (pos - positionInFile f),
                     flags := flags f - {FileFlagEof}\<rparr>"
      by (auto simp: Seek_exit_def Let_def)
    from landed [OF le, of f1] f1 show ?thesis by simp
  next
    case True
    define f0 where "f0 = (if pos < positionInFile f
                           then f\<lparr>current := firstNode f, positionInFile := 0\<rparr> else f)"
    have f0: "blockBuffer f0 = Some buf" "blockSize f0 = blockSize f" "buffer_ok f0 d"
      "positionInFile f0 \<le> pos" "positionInBuffer f0 = positionInBuffer f" "fsize f0 = fsize f"
      using Some assms(1) by (auto simp: f0_def)
    from Flush_ok [OF f0(3)] obtain e where fl: "Flush f0 d = Inr e" by blast
    from assms(4) Some True fl obtain r1 where l: "Seek_loop f0 e pos = Some r1"
      by (auto simp: Seek_exit_def Let_def f0_def [symmetric] split: option.splits)
    obtain failed f2 d2 where r1: "r1 = (failed, f2, d2)" by (cases r1) auto
    from Seek_loop_frame [OF l f0(4)] Seek_loop_position [OF l f0(4)] r1 f0
    have fr: "blockSize f2 = blockSize f" "positionInBuffer f2 = positionInBuffer f"
      "fsize f2 = fsize f"
      "\<not> failed \<Longrightarrow> positionInFile f2 \<le> pos"
      "failed \<Longrightarrow> positionInFile f2 \<le> pos"
      "failed \<Longrightarrow> pos > positionInFile f2 + ucast (blockSize f)"
      by auto
    show ?thesis
    proof (cases failed)
      case True
      with assms(4) Some \<open>_ \<or> _\<close> fl l r1 have f1: "f1 = f2"
        by (auto simp: Seek_exit_def Let_def f0_def [symmetric])
      from fr(5) [OF True] have a: "unat (positionInFile f2) \<le> unat pos" by (simp add: word_le_nat_alt)
      with psmall unat_uint_bound [of "blockSize f"]
      have "unat (positionInFile f2 + ucast (blockSize f)) = unat (positionInFile f2) + unat (blockSize f)"
        by (intro unat_add_file [of _ "ucast (blockSize f)", simplified unat_ucast_up]) simp
      with fr(6) [OF True] have "unat (positionInFile f2) + unat (blockSize f) < unat pos"
        by (simp add: word_less_nat_alt)
      with ple lt fr have "position f2 < unat (fsize f2)" by (simp add: position_def)
      with small fr f1 show ?thesis by (simp add: inside_def)
    next
      case False
      with assms(4) Some \<open>_ \<or> _\<close> fl l r1
      have "fsize f1 = fsize f2 \<and> positionInFile f1 = positionInFile f2
            \<and> positionInBuffer f1 = ucast (pos - positionInFile f2)"
        by (auto simp: Seek_exit_def Let_def f0_def [symmetric] split: sum.splits)
      with landed [OF fr(4) [OF False], of f1] fr show ?thesis by simp
    qed
  qed
qed

lemma Seek_inside:
  assumes "buffer_ok f d" "inside f" "pos < fsize f" "Seek f d pos = Some (Inr (r, f1, d1))"
  shows "inside f1 \<and> fsize f1 = fsize f"
proof -
  from assms(4) obtain x where "Seek_exit f d pos = Some (Inr (x, f1, d1))"
    by (auto simp: Seek_def split: option.splits sum.splits)
  from Seek_exit_inside [OF assms(1-3) this] show ?thesis .
qed

lemma apply_op_inside:
  assumes "buffer_ok f d" "inside f" "0 < unat (fsize f)" "allowed op f"
    "apply_op op f d = Some (Inr (f1, d1))"
  shows "inside f1 \<and> fsize f1 = fsize f"
proof (cases op)
  case (OpOpen resolve mem filePath)
  with assms(4) show ?thesis by simp
next
  case OpRead
  with assms(4,5) obtain b where "\<not> EndOfFile f" "Read f d = Inr (b, f1, d1)"
    by (auto split: sum.splits)
  from Read_inside [OF assms(1-3) this] show ?thesis .
next
  case (OpReadBulk n)
  with assms(5) obtain dest k where "Read_bulk f d n = Some (Inr (dest, k, f1, d1))"
    by (auto split: option.splits sum.splits)
  from Read_bulk_inside [OF assms(1,2) this] show ?thesis .
next
  case (OpWrite v)
  with assms show ?thesis by (auto simp: Write_def)
next
  case (OpSeek pos)
  with assms(4,5) obtain r where "pos < fsize f" "Seek f d pos = Some (Inr (r, f1, d1))"
    by (auto split: option.splits sum.splits)
  from Seek_inside [OF assms(1,2) this] show ?thesis .
next
  case OpFlush
  with assms show ?thesis by (auto split: sum.splits)
qed

lemma run_inside:
  assumes "run ops f d = Some (Inr (f1, d1))" "run_allowed ops f d"
    "buffer_ok f d" "inside f" "0 < unat (fsize f)"
  shows "inside f1 \<and> fsize f1 = fsize f"
  using assms
proof (induction ops arbitrary: f d)
  case Nil
  then show ?case by simp
next
  case (Cons op ops)
  from Cons.prems(1) obtain f2 d2 where a: "apply_op op f d = Some (Inr (f2, d2))"
    and r: "run ops f2 d2 = Some (Inr (f1, d1))"
    by (auto split: option.splits sum.splits)
  from Cons.prems(2) a have al: "allowed op f" "run_allowed ops f2 d2" by auto
  from apply_op_inside [OF Cons.prems(3-5) al(1) a] have i: "inside f2" "fsize f2 = fsize f" by auto
  from apply_op_ok [OF a Cons.prems(3)] have ok: "buffer_ok f2 d2" by simp
  from Cons.IH [OF r al(2) ok i(1)] Cons.prems(5) i(2) show ?case by simp
qed


text \<open>
  C8, as the claim states it, fails. \<open>Read()\<close> does not look at the size: on the file of 2
  bytes a third \<open>Read()\<close> moves the position to 3. \<open>Seek\<close> does not look at the size
  either: \<open>Seek(3)\<close> on the same file puts the position on 3. And in the fresh file the
  position in the file is the sentinel \<open>TFileSize(-1)\<close>, so that the sum with the position
  in the buffer, the block size 4, wraps around to 3.
\<close>

theorem position_exceeds_size:
  "(case demoAfter 2 3 of (f, d) \<Rightarrow>
      fsize f < positionInFile f + ucast (positionInBuffer f))
   \<and> map_option (map_sum id (\<lambda>(r, f, d). fsize f < positionInFile f + ucast (positionInBuffer f)))
        (Seek (demoFile 2) demoDrv 3)
       = Some (Inr True)
   \<and> fsize (demoFile 2)
       < positionInFile (demoFile 2) + ucast (positionInBuffer (demoFile 2))"
  by code_simp

text \<open>
  C8, amended. Take a file that is not empty and shorter than 4 GiB, in the state the
  constructors leave it in, with the buffer invariant. After every run of \<open>Read\<close>, bulk
  \<open>Read\<close>, \<open>Write\<close>, \<open>Seek\<close> and \<open>Flush\<close> operations in which \<open>Read()\<close> is called only while
  \<open>EndOfFile()\<close> is false and \<open>Seek\<close> only with a target below the size, either no block
  has been loaded yet or \<open>positionInFile + positionInBuffer\<close> is at most the size; the
  size itself never changes.
\<close>

theorem position_within_size:
  assumes "buffer_ok f d" "unloaded f"
    and "0 < unat (fsize f)" "unat (fsize f) < 2 ^ 32"
    and "run_allowed ops f d"
    and "run ops f d = Some (Inr (f1, d1))"
  shows "(unloaded f1 \<or> position f1 \<le> unat (fsize f1)) \<and> fsize f1 = fsize f"
proof -
  from assms(2,4) have "inside f" by (simp add: inside_def)
  from run_inside [OF assms(6,5,1) this assms(3)] show ?thesis by (auto simp: inside_def)
qed

theorem position_within_size_witness:
  "buffer_ok (demoFile 20) demoDrv \<and> unloaded (demoFile 20)
   \<and> run_allowed [OpRead, OpSeek 9, OpReadBulk 7, OpRead, OpFlush, OpReadBulk 100]
        (demoFile 20) demoDrv
   \<and> (\<exists>f1 d1. run [OpRead, OpSeek 9, OpReadBulk 7, OpRead, OpFlush, OpReadBulk 100]
                  (demoFile 20) demoDrv = Some (Inr (f1, d1))
        \<and> position f1 \<le> 20)"
proof -
  let ?ops = "[OpRead, OpSeek 9, OpReadBulk 7, OpRead, OpFlush, OpReadBulk 100]"
  have ok: "buffer_ok (demoFile 20) demoDrv" by code_simp
  have un: "unloaded (demoFile 20)" by code_simp
  have sz: "fsize (demoFile 20) = 20" by code_simp
  have al: "run_allowed ?ops (demoFile 20) demoDrv" by code_simp
  have "case run ?ops (demoFile 20) demoDrv of
          Some (Inr (f1, d1)) \<Rightarrow> \<not> unloaded f1 | _ \<Rightarrow> False"
    by code_simp
  then obtain f1 d1 where r: "run ?ops (demoFile 20) demoDrv = Some (Inr (f1, d1))"
    and nu: "\<not> unloaded f1"
    by (auto split: option.splits sum.splits)
  have s1: "0 < unat (fsize (demoFile 20))" and s2: "unat (fsize (demoFile 20)) < 2 ^ 32"
    by (simp_all add: sz)
  from position_within_size [OF ok un s1 s2 al r] nu have "position f1 \<le> 20"
    by (auto simp: sz)
  with ok un al r show ?thesis by blast
qed

subsection \<open>Reading a file from its start\<close>

lemma same_driver_refl [simp]: "same_driver d d"
  by (simp add: same_driver_def)

lemma same_driver_logCall [simp]: "same_driver (logCall c d) d0 = same_driver d d0"
  by (simp add: same_driver_def)

lemma Flush_readonly:
  assumes "FileFlagWritable \<notin> flags f" "blockBuffer f \<noteq> None" "current f \<noteq> 0"
  shows "Flush f d = Inr (logCall (CallEndOfFile (current f)) d)"
  using assms by (auto simp: Flush_def Driver_EndOfFile_def)

lemma Read_fetch_result:
  assumes "buffer_ok g e" "blockBuffer g \<noteq> None"
  shows "Read_fetch g e =
           Inr (drvStorage e (current g + blockInChunk g) 0,
                Read_bulk_eof (g\<lparr>blockBuffer := Some (map (drvStorage e (current g + blockInChunk g))
                                                   [0..<unat (drvBlockSize e)]),
                                 positionInBuffer := 1\<rparr>),
                logCall (CallReadBlock (current g + blockInChunk g)) e)"
proof -
  from assms obtain buf where b: "blockBuffer g = Some buf" "length buf = unat (drvBlockSize e)"
    and bs: "0 < unat (drvBlockSize e)"
    by (auto simp: buffer_ok_def word_less_nat_alt split: option.splits)
  from bs have nth: "map h [0..<unat (drvBlockSize e)] ! 0 = h 0" for h :: "nat \<Rightarrow> byte"
    by simp
  show ?thesis
    using bs nth
    by (simp add: Read_fetch_def Read_load_def b ReadBlock_ok Read_byte_def Let_def Read_bulk_eof_def)
qed

lemma Read_byte_eq:
  assumes "blockBuffer f = Some buf" "unat (positionInBuffer f) < length buf"
  shows "Read_byte f d =
           Inr (buf ! unat (positionInBuffer f),
                Read_bulk_eof (f\<lparr>positionInBuffer := positionInBuffer f + 1\<rparr>), d)"
  using assms by (simp add: Read_byte_def Let_def Read_bulk_eof_def)


lemma chain_covers_node:
  "chain_covers d node J \<Longrightarrow> j \<le> J \<Longrightarrow> fst (block_at d node j) \<noteq> 0"
  by (cases "j = J") (auto simp: chain_covers_def list_all_iff)

lemma chain_covers_advance:
  "chain_covers d node J \<Longrightarrow> j < J \<Longrightarrow> can_advance d (block_at d node j)"
  by (auto simp: chain_covers_def list_all_iff)

lemma position_eof:
  assumes "position f < 18446744073709551616"
  shows "Read_bulk_eof f =
           (if unat (fsize f) \<le> position f then f\<lparr>flags := flags f \<union> {FileFlagEof}\<rparr> else f)"
  using position_word [OF assms] by (simp add: Read_bulk_eof_def word_le_nat_alt)

lemma Read_first:
  assumes "fresh f d" "0 < unat (fsize f)"
  shows "\<exists>f1 d1. Read f d = Inr (file_byte d (firstNode f) 0, f1, d1) \<and> at_offset d f 1 f1 d1"
proof -
  from assms(1) have ok: "buffer_ok f d" and buf: "blockBuffer f \<noteq> None"
    and un: "current f = 0" "positionInBuffer f = blockSize f" and bic: "blockInChunk f = 0"
    and fl: "FileFlagEof \<notin> flags f" "FileFlagWritable \<notin> flags f"
    by (auto simp: fresh_def unloaded_def)
  from ok have bs: "blockSize f = drvBlockSize d" "0 < unat (drvBlockSize d)"
    by (auto simp: buffer_ok_def word_less_nat_alt)
  let ?g = "f\<lparr>current := firstNode f, positionInFile := 0\<rparr>"
  let ?blk = "map (drvStorage d (firstNode f)) [0..<unat (drvBlockSize d)]"
  let ?h = "?g\<lparr>blockBuffer := Some ?blk, positionInBuffer := 1\<rparr>"
  have r: "Read f d = Read_fetch ?g d"
    using un buf by (auto simp: Read_def)
  have okg: "buffer_ok ?g d" "blockBuffer ?g \<noteq> None" using ok buf by simp_all
  have ph: "position ?h = 1" by (simp add: position_def)
  have e: "Read_bulk_eof ?h = (if unat (fsize f) \<le> 1 then ?h\<lparr>flags := flags f \<union> {FileFlagEof}\<rparr> else ?h)"
    using position_eof [of ?h] ph by simp
  have okh: "buffer_ok ?h d" using ok bs by (auto simp: buffer_ok_def word_le_nat_alt)
  have fb: "file_byte d (firstNode f) 0 = drvStorage d (firstNode f) 0"
    by (simp add: file_byte_def)
  have "at_offset d f 1 (Read_bulk_eof ?h) (logCall (CallReadBlock (firstNode f)) d)"
    using okh fl ph bs bic by (auto simp: e at_offset_def position_def)
  then show ?thesis
    using Read_fetch_result [OF okg] bic by (simp add: r fb)
qed


lemma block_start_less: "0 < (B::nat) \<Longrightarrow> 1 \<le> k \<Longrightarrow> (k - 1) div B * B < k"
proof -
  assume "0 < B" "1 \<le> k"
  have "(k - 1) div B * B \<le> k - 1" by simp
  with \<open>1 \<le> k\<close> show ?thesis by linarith
qed

lemma next_block_index: "0 < (B::nat) \<Longrightarrow> j * B + B < s \<Longrightarrow> Suc j \<le> (s - 1) div B"
proof -
  assume B: "0 < B" and lt: "j * B + B < s"
  then have "Suc j * B \<le> s - 1" by simp
  then have "Suc j * B div B \<le> (s - 1) div B" by (rule div_le_mono)
  with B show ?thesis by simp
qed

lemma same_block_index:
  "j * (B::nat) < k \<Longrightarrow> k - j * B < B \<Longrightarrow> k div B = j \<and> k mod B = k - j * B"
proof -
  assume a: "j * B < k" "k - j * B < B"
  define r where "r = k - j * B"
  with a have k: "k = j * B + r" and r: "r < B" by simp_all
  from r show ?thesis unfolding k by simp
qed

lemma block_index_mono: "k < s \<Longrightarrow> (k - 1) div (B::nat) \<le> (s - 1) div B"
  by (rule div_le_mono) simp

lemma Read_step:
  assumes at: "at_offset d0 f0 k f d" and k: "1 \<le> k" "k < unat (fsize f0)"
    and chain: "chain_covers d0 (firstNode f0) ((unat (fsize f0) - 1) div unat (drvBlockSize d0))"
  shows "\<exists>f1 d1. Read f d = Inr (file_byte d0 (firstNode f0) k, f1, d1)
                  \<and> at_offset d0 f0 (Suc k) f1 d1"
proof -
  note small = unat_size_bound [of "fsize f0"]
  define B where "B = unat (drvBlockSize d0)"
  define j where "j = (k - 1) div B"
  define node where "node = firstNode f0"
  from at have ok: "buffer_ok f d" and sd: "same_driver d d0"
    and sz: "fsize f = fsize f0" and fn: "firstNode f = firstNode f0"
    and cb: "block_at d0 node j = (current f, blockInChunk f)"
    and pf: "unat (positionInFile f) = j * B" and pos: "position f = k"
    and buf: "blockBuffer f = Some (map (drvStorage d0 (current f + blockInChunk f)) [0..<B])"
    and eof: "(FileFlagEof \<in> flags f) = (unat (fsize f0) \<le> k)"
    and wr: "FileFlagWritable \<notin> flags f"
    by (simp_all add: at_offset_def B_def j_def node_def)
  from ok sd have bs: "blockSize f = drvBlockSize d0" "drvBlockSize d = drvBlockSize d0"
    and B0: "0 < B" and ple: "unat (positionInBuffer f) \<le> B"
    by (auto simp: buffer_ok_def same_driver_def B_def word_less_nat_alt word_le_nat_alt)
  from pos pf have p: "unat (positionInBuffer f) = k - j * B" by (simp add: position_def)
  from k(1) B0 have jk: "j * B < k"
    unfolding j_def by (intro block_start_less)
  from eof k(2) have noeof: "FileFlagEof \<notin> flags f" by simp
  have J: "j \<le> (unat (fsize f0) - 1) div B"
    unfolding j_def using k(2) by (rule block_index_mono)
  from chain_covers_node [OF chain, of j] J cb have cur: "current f \<noteq> 0"
    by (simp add: B_def node_def)
  have fin: "at_offset d0 f0 (Suc k) (Read_bulk_eof h) e"
    if "buffer_ok h e" "same_driver e d0" "fsize h = fsize f0" "firstNode h = firstNode f0"
      "block_at d0 node (k div B) = (current h, blockInChunk h)"
      "unat (positionInFile h) = k div B * B" "position h = Suc k"
      "blockBuffer h = Some (map (drvStorage d0 (current h + blockInChunk h)) [0..<B])"
      "flags h = flags f" for h e
  proof -
    from that(7) k(2) small have "position h < 18446744073709551616" by simp
    from position_eof [OF this] that noeof wr k(2) show ?thesis
      by (auto simp: at_offset_def B_def node_def position_def)
  qed
  show ?thesis
  proof (cases "positionInBuffer f < blockSize f")
    case True
    then have pB: "k - j * B < B" using p bs by (simp add: word_less_nat_alt B_def)
    with jk have kd: "k div B = j" "k mod B = k - j * B"
      using same_block_index [of j B k] by simp_all
    have len: "unat (positionInBuffer f) < length (map (drvStorage d0 (current f + blockInChunk f)) [0..<B])"
      using pB p by simp
    from True have "\<not> blockSize f \<le> positionInBuffer f" by simp
    then have r: "Read f d = Read_byte f d" by (simp add: Read_def)
    let ?h = "f\<lparr>positionInBuffer := positionInBuffer f + 1\<rparr>"
    have one: "unat (positionInBuffer f + 1) = unat (positionInBuffer f) + 1"
      using True by (rule unat_uint_Suc)
    have okh: "buffer_ok ?h d"
      using ok inc_le [OF True] buf by (auto simp: buffer_ok_def)
    have ph: "position ?h = Suc k" using pos by (simp add: position_def one)
    have byte: "map (drvStorage d0 (current f + blockInChunk f)) [0..<B] ! unat (positionInBuffer f)
                  = file_byte d0 node k"
      using pB p cb by (simp add: file_byte_def kd B_def [symmetric])
    from fin [of ?h d] okh sd sz fn cb pf ph buf kd
    have "at_offset d0 f0 (Suc k) (Read_bulk_eof ?h) d" by simp
    with Read_byte_eq [OF buf len, of d] byte show ?thesis by (simp add: r node_def)
  next
    case False
    with ok have full: "positionInBuffer f = blockSize f" by (auto simp: buffer_ok_def)
    with p bs have kB: "k = j * B + B" using jk by (simp add: B_def)
    then have kd: "k div B = Suc j" "k mod B = 0" using B0 by simp_all
    from kB k(2) have "Suc j \<le> (unat (fsize f0) - 1) div B"
      using B0 by (intro next_block_index) simp_all
    then have jJ: "j < (unat (fsize f0) - 1) div B" by simp
    from chain_covers_advance [OF chain, of j] jJ cb
    have adv: "\<not> drvEndOfFile d0 (current f)"
      "blockInChunk f + 1 \<ge> drvBlocksPerNode d0 (current f)
         \<Longrightarrow> \<not> drvEndOfFile d0 (drvNextChunk d0 (current f))"
      by (auto simp: can_advance_def B_def node_def split: if_splits)
    from sd have cfg: "drvEndOfFile d = drvEndOfFile d0" "drvBlocksPerNode d = drvBlocksPerNode d0"
      "drvNextChunk d = drvNextChunk d0" "drvStorage d = drvStorage d0"
      by (simp_all add: same_driver_def)
    have fl: "Flush f e = Inr (logCall (CallEndOfFile (current f)) e)" for e
      using wr buf cur by (intro Flush_readonly) simp_all
    have pf': "unat (positionInFile f + ucast (blockSize f)) = Suc j * B"
      using pf kB k(2) small bs by (subst unat_advance) (simp_all add: B_def)
    obtain c b where nb: "next_block d0 (current f, blockInChunk f) = (c, b)"
      by (cases "next_block d0 (current f, blockInChunk f)") auto
    with cb have cb': "block_at d0 node (Suc j) = (c, b)" by simp
    define g where "g = f\<lparr>blockInChunk := b, current := c,
                          positionInFile := positionInFile f + ucast (blockSize f)\<rparr>"
    have "\<exists>e. Read f d = Read_fetch g e \<and> same_driver e d0"
    proof (cases "blockInChunk f + 1 \<ge> drvBlocksPerNode d0 (current f)")
      case True
      with nb have "c = drvNextChunk d0 (current f)" "b = 0" by (auto simp: next_block_def)
      with True adv full buf cur fl cfg noeof sd show ?thesis
        by (simp add: Read_def Driver_EndOfFile_def GetBlocksPerNode_def GetNextChunk_def Let_def g_def)
          (rule exI, rule conjI, rule refl, simp)
    next
      case False
      with nb have "c = current f" "b = blockInChunk f + 1" by (auto simp: next_block_def)
      with False adv full buf cur fl cfg sd show ?thesis
        by (simp add: Read_def Driver_EndOfFile_def GetBlocksPerNode_def GetNextChunk_def Let_def g_def)
          (rule exI, rule conjI, rule refl, simp)
    qed
    then obtain e where r: "Read f d = Read_fetch g e" and sde: "same_driver e d0" by blast
    have okg: "buffer_ok g e" "blockBuffer g \<noteq> None"
      using ok buf sde sd by (auto simp: g_def buffer_ok_def same_driver_def)
    let ?h = "g\<lparr>blockBuffer := Some (map (drvStorage e (current g + blockInChunk g))
                                    [0..<unat (drvBlockSize e)]),
                 positionInBuffer := 1\<rparr>"
    let ?e1 = "logCall (CallReadBlock (current g + blockInChunk g)) e"
    from sde have se: "drvStorage e = drvStorage d0" "drvBlockSize e = drvBlockSize d0"
      by (simp_all add: same_driver_def)
    have okh: "buffer_ok ?h ?e1"
      using okg B0 by (auto simp: buffer_ok_def word_le_nat_alt B_def se g_def bs)
    have ph: "position ?h = Suc k" using pf' kB by (simp add: position_def g_def)
    from fin [of ?h ?e1] okh sde sz fn cb' pf' ph kd
    have "at_offset d0 f0 (Suc k) (Read_bulk_eof ?h) ?e1"
      by (simp add: g_def se B_def)
    moreover have "drvStorage e (current g + blockInChunk g) 0 = file_byte d0 node k"
      using cb' by (simp add: file_byte_def kd B_def [symmetric] se g_def)
    ultimately show ?thesis
      using Read_fetch_result [OF okg] by (simp add: r node_def)
  qed
qed


lemma Read_n_seq:
  assumes "at_offset d0 f0 k f d" "1 \<le> k" "k + m \<le> unat (fsize f0)"
    and "chain_covers d0 (firstNode f0) ((unat (fsize f0) - 1) div unat (drvBlockSize d0))"
  shows "\<exists>f1 d1. Read_n m f d = Inr (map (file_byte d0 (firstNode f0)) [k..<k + m], f1, d1)
                  \<and> at_offset d0 f0 (k + m) f1 d1"
  using assms(1-3)
proof (induction m arbitrary: k f d)
  case 0
  then show ?case by simp
next
  case (Suc m)
  from Suc.prems(3) have "k < unat (fsize f0)" by simp
  from Read_step [OF Suc.prems(1,2) this assms(4)] obtain f1 d1 where
    r: "Read f d = Inr (file_byte d0 (firstNode f0) k, f1, d1)"
    and a: "at_offset d0 f0 (Suc k) f1 d1"
    by blast
  from Suc.IH [OF a] Suc.prems(3) obtain f2 d2 where
    n: "Read_n m f1 d1 = Inr (map (file_byte d0 (firstNode f0)) [Suc k..<Suc k + m], f2, d2)"
    and a2: "at_offset d0 f0 (Suc k + m) f2 d2"
    by auto
  have "[k..<k + Suc m] = k # [Suc k..<Suc k + m]" by (simp add: upt_rec)
  with r n a2 show ?case by simp
qed

lemma Read_n_fresh:
  assumes "fresh f d" "1 \<le> m" "m \<le> unat (fsize f)"
    and "chain_covers d (firstNode f) ((unat (fsize f) - 1) div unat (drvBlockSize d))"
  shows "\<exists>f1 d1. Read_n m f d = Inr (map (file_byte d (firstNode f)) [0..<m], f1, d1)
                  \<and> at_offset d f m f1 d1"
proof -
  from assms(2) obtain m' where m: "m = Suc m'" by (cases m) auto
  from assms(2,3) have "0 < unat (fsize f)" by simp
  from Read_first [OF assms(1) this] obtain f1 d1 where
    r: "Read f d = Inr (file_byte d (firstNode f) 0, f1, d1)" and a: "at_offset d f 1 f1 d1"
    by blast
  from Read_n_seq [OF a _ _ assms(4), of m'] assms(3) m obtain f2 d2 where
    n: "Read_n m' f1 d1 = Inr (map (file_byte d (firstNode f)) [1..<1 + m'], f2, d2)"
    and a2: "at_offset d f (1 + m') f2 d2"
    by auto
  have "[0..<Suc m'] = 0 # [1..<1 + m']" by (simp add: upt_rec)
  with r n a2 m show ?thesis by simp
qed

lemma Read_n_snoc:
  assumes "Read_n m f d = Inr (bs, f2, d2)" "Read f2 d2 = Inr (b, f1, d1)"
  shows "Read_n (Suc m) f d = Inr (bs @ [b], f1, d1)"
  using assms
proof (induction m arbitrary: f d bs)
  case 0
  then show ?case by simp
next
  case (Suc m)
  from Suc.prems(1) obtain b0 g e bs0 where
    r: "Read f d = Inr (b0, g, e)" and n: "Read_n m g e = Inr (bs0, f2, d2)" and bs: "bs = b0 # bs0"
    by (auto split: sum.splits)
  from Suc.IH [OF n Suc.prems(2)] r bs show ?case by simp
qed

lemma eof_kept [simp]: "FileFlagEof \<in> flags g \<Longrightarrow> FileFlagEof \<in> flags (Read_bulk_eof g)"
  by (simp add: Read_bulk_eof_def)

lemma Read_keeps_eof:
  assumes "buffer_ok f d" "EndOfFile f" "unat (fsize f) \<le> position f"
    "position f + 1 < 18446744073709551616" "Read f d = Inr (b, f1, d1)"
  shows "EndOfFile f1"
proof -
  from assms(2) have e: "FileFlagEof \<in> flags f" by (simp add: EndOfFile_def)
  from assms(1) have le: "positionInBuffer f \<le> blockSize f" by (auto simp: buffer_ok_def)
  show ?thesis
  proof (cases "positionInBuffer f \<ge> blockSize f")
    case False
    then have lt: "positionInBuffer f < blockSize f" by simp
    with assms(1) obtain buf where "blockBuffer f = Some buf" "unat (positionInBuffer f) < length buf"
      by (auto simp: buffer_ok_def word_less_nat_alt split: option.splits)
    from Read_byte_eq [OF this, of d] False assms(5) e show ?thesis
      by (auto simp: Read_def EndOfFile_def)
  next
    case True
    with le have full: "positionInBuffer f = blockSize f" by simp
    show ?thesis
    proof (cases "blockBuffer f")
      case None
      with True assms show ?thesis by (simp add: Read_def)
    next
      case (Some buf)
      have via: "EndOfFile f1"
        if "Read_fetch g e = Inr (b, f1, d1)" "buffer_ok g e" "blockBuffer g = Some buf"
          "FileFlagEof \<in> flags g \<or> (fsize g = fsize f
              \<and> positionInFile g = positionInFile f + ucast (blockSize f))" for g e
      proof -
        let ?h = "g\<lparr>blockBuffer := Some (map (drvStorage e (current g + blockInChunk g))
                                        [0..<unat (drvBlockSize e)]),
                     positionInBuffer := 1\<rparr>"
        from Read_fetch_result [OF that(2), of ] that(1,3) have f1: "f1 = Read_bulk_eof ?h" by simp
        show ?thesis
        proof (cases "FileFlagEof \<in> flags g")
          case True
          then show ?thesis by (simp add: f1 EndOfFile_def)
        next
          case False
          with that(4) have g: "fsize g = fsize f"
            "positionInFile g = positionInFile f + ucast (blockSize f)" by auto
          from assms(4) full have
            "unat (positionInFile f + ucast (blockSize f)) = unat (positionInFile f) + unat (blockSize f)"
            by (intro unat_advance) (simp add: position_def)
          with g full have ph: "position ?h = position f + 1" by (simp add: position_def)
          with assms(4) have "position ?h < 18446744073709551616" by simp
          from position_eof [OF this] ph assms(3) g show ?thesis
            by (simp add: f1 EndOfFile_def)
        qed
      qed
      show ?thesis
      proof (cases "current f = 0")
        case True
        with \<open>blockSize f \<le> _\<close> assms(5) Some
        have "Read_fetch (f\<lparr>current := firstNode f, positionInFile := 0\<rparr>) d = Inr (b, f1, d1)"
          by (simp add: Read_def)
        from via [OF this] assms(1) Some e show ?thesis by simp
      next
        case False
        let ?d1 = "logCall (CallEndOfFile (current f)) d"
        show ?thesis
        proof (cases "drvEndOfFile d (current f)")
          case True
          with \<open>blockSize f \<le> _\<close> assms Some False show ?thesis
            by (auto simp: Read_def Driver_EndOfFile_def)
        next
          case eof: False
          obtain d2 where fl: "Flush f ?d1 = Inr d2" and ok2: "buffer_ok f d2"
            using Flush_ok [of f ?d1] assms(1) by auto
          show ?thesis
          proof (cases "drvBlocksPerNode d2 (current f) \<le> blockInChunk f + 1")
            case hop: True
            show ?thesis
            proof (cases "drvEndOfFile d2 (drvNextChunk d2 (current f))")
              case True
              with hop \<open>blockSize f \<le> _\<close> assms(5) Some False eof fl
              have "f1 = f\<lparr>blockInChunk := 0, flags := flags f \<union> {FileFlagEof}\<rparr>"
                by (auto simp: Read_def Driver_EndOfFile_def GetBlocksPerNode_def GetNextChunk_def Let_def)
              then show ?thesis by (simp add: EndOfFile_def)
            next
              case nx: False
              let ?g = "f\<lparr>blockInChunk := 0, flags := flags f - {FileFlagEof},
                          current := drvNextChunk d2 (current f),
                          positionInFile := positionInFile f + ucast (blockSize f)\<rparr>"
              let ?e = "logCall (CallEndOfFile (drvNextChunk d2 (current f)))
                          (logCall (CallGetNextChunk (current f))
                            (logCall (CallGetBlocksPerNode (current f)) d2))"
              from nx hop \<open>blockSize f \<le> _\<close> assms(5) Some False eof fl
              have "Read_fetch ?g ?e = Inr (b, f1, d1)"
                by (simp add: Read_def Driver_EndOfFile_def GetBlocksPerNode_def GetNextChunk_def Let_def)
              from via [OF this] ok2 Some show ?thesis by simp
            qed
          next
            case nohop: False
            let ?g = "f\<lparr>blockInChunk := blockInChunk f + 1,
                        positionInFile := positionInFile f + ucast (blockSize f)\<rparr>"
            let ?e = "logCall (CallGetBlocksPerNode (current f)) d2"
            from nohop \<open>blockSize f \<le> _\<close> assms(5) Some False eof fl
            have "Read_fetch ?g ?e = Inr (b, f1, d1)"
              by (simp add: Read_def Driver_EndOfFile_def GetBlocksPerNode_def GetNextChunk_def Let_def)
            from via [OF this] ok2 Some e show ?thesis by simp
          qed
        qed
      qed
    qed
  qed
qed


lemma Read_behind:
  assumes at: "at_offset d0 f0 k f d" and k: "1 \<le> k" and cur: "current f \<noteq> 0"
  shows "\<exists>f1 d1. Read f d =
           Inr ((if k mod unat (drvBlockSize d0) = 0
                    \<and> \<not> can_advance d0
                          (block_at d0 (firstNode f0) ((k - 1) div unat (drvBlockSize d0)))
                 then 0 else file_byte d0 (firstNode f0) k), f1, d1)"
proof -
  define B where "B = unat (drvBlockSize d0)"
  define j where "j = (k - 1) div B"
  define node where "node = firstNode f0"
  from at have ok: "buffer_ok f d" and sd: "same_driver d d0"
    and cb: "block_at d0 node j = (current f, blockInChunk f)"
    and pf: "unat (positionInFile f) = j * B" and pos: "position f = k"
    and buf: "blockBuffer f = Some (map (drvStorage d0 (current f + blockInChunk f)) [0..<B])"
    and wr: "FileFlagWritable \<notin> flags f"
    by (simp_all add: at_offset_def B_def j_def node_def)
  from ok sd have bs: "blockSize f = drvBlockSize d0" "drvBlockSize d = drvBlockSize d0"
    and B0: "0 < B" and ple: "unat (positionInBuffer f) \<le> B"
    by (auto simp: buffer_ok_def same_driver_def B_def word_less_nat_alt word_le_nat_alt)
  from pos pf have p: "unat (positionInBuffer f) = k - j * B" by (simp add: position_def)
  from k B0 have jk: "j * B < k"
    unfolding j_def by (intro block_start_less)
  have "\<exists>f1 d1. Read f d =
           Inr ((if k mod B = 0 \<and> \<not> can_advance d0 (block_at d0 node j)
                 then 0 else file_byte d0 node k), f1, d1)"
  proof (cases "positionInBuffer f < blockSize f")
    case True
    then have pB: "k - j * B < B" using p bs by (simp add: word_less_nat_alt B_def)
    with jk have kd: "k div B = j" "k mod B = k - j * B"
      using same_block_index [of j B k] by simp_all
    with jk have nz: "k mod B \<noteq> 0" by simp
    have len: "unat (positionInBuffer f) < length (map (drvStorage d0 (current f + blockInChunk f)) [0..<B])"
      using pB p by simp
    from True have "\<not> blockSize f \<le> positionInBuffer f" by simp
    then have r: "Read f d = Read_byte f d" by (simp add: Read_def)
    have byte: "map (drvStorage d0 (current f + blockInChunk f)) [0..<B] ! unat (positionInBuffer f)
                  = file_byte d0 node k"
      using pB p cb by (simp add: file_byte_def kd B_def [symmetric])
    from Read_byte_eq [OF buf len, of d] byte nz show ?thesis by (simp add: r)
  next
    case False
    with ok have full: "positionInBuffer f = blockSize f" by (auto simp: buffer_ok_def)
    with p bs have kB: "k = j * B + B" using jk by (simp add: B_def)
    then have kd: "k div B = Suc j" "k mod B = 0" using B0 by simp_all
    from sd have cfg: "drvEndOfFile d = drvEndOfFile d0" "drvBlocksPerNode d = drvBlocksPerNode d0"
      "drvNextChunk d = drvNextChunk d0" "drvStorage d = drvStorage d0"
      by (simp_all add: same_driver_def)
    have fl: "Flush f e = Inr (logCall (CallEndOfFile (current f)) e)" for e
      using wr buf cur by (intro Flush_readonly) simp_all
    from buf have bufn: "blockBuffer f \<noteq> None" by simp
    show ?thesis
    proof (cases "can_advance d0 (current f, blockInChunk f)")
      case True
      then have adv: "\<not> drvEndOfFile d0 (current f)"
        "blockInChunk f + 1 \<ge> drvBlocksPerNode d0 (current f)
           \<Longrightarrow> \<not> drvEndOfFile d0 (drvNextChunk d0 (current f))"
        by (auto simp: can_advance_def split: if_splits)
      obtain c b where nb: "next_block d0 (current f, blockInChunk f) = (c, b)"
        by (cases "next_block d0 (current f, blockInChunk f)") auto
      with cb have cb': "block_at d0 node (Suc j) = (c, b)" by simp
      have "\<exists>e h. Read f d = Read_fetch h e \<and> same_driver e d0
               \<and> current h = c \<and> blockInChunk h = b \<and> blockBuffer h = blockBuffer f
               \<and> blockSize h = blockSize f \<and> positionInBuffer h = positionInBuffer f"
      proof (cases "blockInChunk f + 1 \<ge> drvBlocksPerNode d0 (current f)")
        case True
        with nb have "c = drvNextChunk d0 (current f)" "b = 0" by (auto simp: next_block_def)
        with True adv full buf cur fl cfg sd show ?thesis
          by (simp add: Read_def Driver_EndOfFile_def GetBlocksPerNode_def GetNextChunk_def Let_def)
            (rule exI, rule exI, rule conjI, rule refl, simp)
      next
        case False
        with nb have "c = current f" "b = blockInChunk f + 1" by (auto simp: next_block_def)
        with False adv full buf cur fl cfg sd show ?thesis
          by (simp add: Read_def Driver_EndOfFile_def GetBlocksPerNode_def GetNextChunk_def Let_def)
            (rule exI, rule exI, rule conjI, rule refl, simp)
      qed
      then obtain e h where r: "Read f d = Read_fetch h e" and sde: "same_driver e d0"
        and hf: "current h = c" "blockInChunk h = b" "blockBuffer h = blockBuffer f"
        "blockSize h = blockSize f" "positionInBuffer h = positionInBuffer f"
        by blast
      have okh: "buffer_ok h e" "blockBuffer h \<noteq> None"
        using ok buf sde sd hf by (auto simp: buffer_ok_def same_driver_def)
      from sde have se: "drvStorage e = drvStorage d0" by (simp add: same_driver_def)
      have "drvStorage e (current h + blockInChunk h) 0 = file_byte d0 node k"
        using cb' by (simp add: file_byte_def kd B_def [symmetric] se hf)
      with Read_fetch_result [OF okh] True cb show ?thesis by (simp add: r)
    next
      case False
      then have stop: "drvEndOfFile d0 (current f)
          \<or> (blockInChunk f + 1 \<ge> drvBlocksPerNode d0 (current f)
             \<and> drvEndOfFile d0 (drvNextChunk d0 (current f)))"
        by (auto simp: can_advance_def split: if_splits)
      have "\<exists>f1 d1. Read f d = Inr (0, f1, d1)"
      proof (cases "drvEndOfFile d0 (current f)")
        case True
        with full buf cur cfg show ?thesis
          by (simp add: Read_def Driver_EndOfFile_def)
      next
        case no: False
        with stop have "blockInChunk f + 1 \<ge> drvBlocksPerNode d0 (current f)"
          "drvEndOfFile d0 (drvNextChunk d0 (current f))" by simp_all
        with no full buf cur fl cfg show ?thesis
          by (simp add: Read_def Driver_EndOfFile_def GetBlocksPerNode_def GetNextChunk_def Let_def)
      qed
      with False kd cb show ?thesis by simp
    qed
  qed
  then show ?thesis by (simp only: B_def j_def node_def)
qed

lemma not_max_size:
  assumes "(x :: TFileSize) \<noteq> - 1"
  shows "unat x + 1 < 18446744073709551616"
proof -
  have m: "unat (- 1 :: TFileSize) = 18446744073709551615"
    by (simp add: unsigned_minus_1_eq_mask mask_eq_exp_minus_1)
  from assms have "unat x \<noteq> unat (- 1 :: TFileSize)" by (simp only: word_unat_eq_iff not_False_eq_True)
  with m unat_size_bound [of x] show ?thesis by simp
qed

text \<open>
  The end-of-file flag steers no read: a file that differs from another in having the
  flag up returns the same bytes and makes the same driver calls, and differs from it
  afterwards at most in having the flag up.
\<close>

lemma raised_fields [simp]:
  "positionInBuffer (raised f) = positionInBuffer f"
  "positionInFile (raised f) = positionInFile f"
  "fsize (raised f) = fsize f"
  "blockSize (raised f) = blockSize f"
  "blockBuffer (raised f) = blockBuffer f"
  "current (raised f) = current f"
  "blockInChunk (raised f) = blockInChunk f"
  "firstNode (raised f) = firstNode f"
  "flags (raised f) = insert FileFlagEof (flags f)"
  by (simp_all add: raised_def)

lemma Flush_raised: "Flush (raised f) d = Flush f d"
  by (auto simp: Flush_def Driver_EndOfFile_def split: option.splits)

lemma Read_byte_raised:
  "Read_byte (raised f) d = map_sum id (\<lambda>(b, f1, d1). (b, raised f1, d1)) (Read_byte f d)"
  by (auto simp: Read_byte_def raised_def Let_def split: option.splits)

lemma Read_fetch_raised:
  "Read_fetch (raised f) d = map_sum id (\<lambda>(b, f1, d1). (b, raised f1, d1)) (Read_fetch f d)"
proof -
  have l: "Read_load (raised f) d = map_sum id (\<lambda>(f1, d1). (raised f1, d1)) (Read_load f d)"
    by (auto simp: Read_load_def raised_def split: option.splits sum.splits)
  show ?thesis
    by (cases "Read_load f d") (auto simp: Read_fetch_def l Read_byte_raised)
qed

lemma Read_raised:
  assumes "Read f d = Inr (b, f1, d1)"
  shows "Read (raised f) d = Inr (b, f1, d1) \<or> Read (raised f) d = Inr (b, raised f1, d1)"
proof (cases "positionInBuffer f \<ge> blockSize f")
  case False
  with assms show ?thesis by (simp add: Read_def Read_byte_raised)
next
  case True
  note full = this
  show ?thesis
  proof (cases "blockBuffer f")
    case None
    with full assms show ?thesis by (auto simp: Read_def)
  next
    case (Some buf)
    show ?thesis
    proof (cases "current f = 0")
      case True
      let ?g = "f\<lparr>current := firstNode f, positionInFile := 0\<rparr>"
      from True full Some assms have a: "Read_fetch ?g d = Inr (b, f1, d1)"
        by (simp add: Read_def)
      have eq: "raised f\<lparr>current := firstNode f, positionInFile := 0\<rparr> = raised ?g"
        by (simp add: raised_def)
      have "Read (raised f) d = Read_fetch (raised ?g) d"
        using True full Some by (simp add: Read_def eq)
      with a show ?thesis by (simp add: Read_fetch_raised)
    next
      case cur: False
      show ?thesis
      proof (cases "drvEndOfFile d (current f)")
        case True
        with cur full Some assms show ?thesis
          by (auto simp: Read_def Driver_EndOfFile_def)
      next
        case eof: False
        let ?d1 = "logCall (CallEndOfFile (current f)) d"
        show ?thesis
        proof (cases "Flush f ?d1")
          case (Inl e)
          with eof cur full Some assms show ?thesis
            by (simp add: Read_def Driver_EndOfFile_def)
        next
          case (Inr d2)
          show ?thesis
          proof (cases "drvBlocksPerNode d2 (current f) \<le> blockInChunk f + 1")
            case hop: True
            let ?e = "logCall (CallEndOfFile (drvNextChunk d2 (current f)))
                        (logCall (CallGetNextChunk (current f))
                          (logCall (CallGetBlocksPerNode (current f)) d2))"
            show ?thesis
            proof (cases "drvEndOfFile d2 (drvNextChunk d2 (current f))")
              case True
              let ?h = "f\<lparr>blockInChunk := 0, flags := flags f \<union> {FileFlagEof}\<rparr>"
              from True hop Inr eof cur full Some assms
              have a: "f1 = ?h" "b = 0" "d1 = ?e"
                by (auto simp: Read_def Driver_EndOfFile_def GetBlocksPerNode_def GetNextChunk_def
                    Let_def)
              have eq: "raised f\<lparr>blockInChunk := 0,
                          flags := insert FileFlagEof (insert FileFlagEof (flags f))\<rparr> = ?h"
                by (simp add: raised_def)
              from True hop Inr eof cur full Some
              have "Read (raised f) d = Inr (0, ?h, ?e)"
                by (simp add: Read_def Driver_EndOfFile_def GetBlocksPerNode_def GetNextChunk_def
                    Let_def Flush_raised eq)
              with a show ?thesis by simp
            next
              case False
              let ?g = "f\<lparr>blockInChunk := 0, flags := flags f - {FileFlagEof},
                          current := drvNextChunk d2 (current f),
                          positionInFile := positionInFile f + ucast (blockSize f)\<rparr>"
              from False hop Inr eof cur full Some assms
              have a: "Read_fetch ?g ?e = Inr (b, f1, d1)"
                by (simp add: Read_def Driver_EndOfFile_def GetBlocksPerNode_def GetNextChunk_def
                    Let_def)
              have eq: "raised f\<lparr>blockInChunk := 0,
                    flags := flags f - {FileFlagEof},
                    current := drvNextChunk d2 (current f),
                    positionInFile := positionInFile f + ucast (blockSize f)\<rparr> = ?g"
                by (simp add: raised_def)
              from False hop Inr eof cur full Some
              have "Read (raised f) d = Read_fetch ?g ?e"
                by (simp add: Read_def Driver_EndOfFile_def GetBlocksPerNode_def GetNextChunk_def
                    Let_def Flush_raised eq)
              with a show ?thesis by simp
            qed
          next
            case nohop: False
            let ?g = "f\<lparr>blockInChunk := blockInChunk f + 1,
                     positionInFile := positionInFile f + ucast (blockSize f)\<rparr>"
            let ?e = "logCall (CallGetBlocksPerNode (current f)) d2"
            from nohop Inr eof cur full Some assms
            have a: "Read_fetch ?g ?e = Inr (b, f1, d1)"
              by (simp add: Read_def Driver_EndOfFile_def GetBlocksPerNode_def GetNextChunk_def
                  Let_def)
            have eq: "raised f\<lparr>blockInChunk := blockInChunk f + 1,
                     positionInFile := positionInFile f + ucast (blockSize f)\<rparr> = raised ?g"
              by (simp add: raised_def)
            from nohop Inr eof cur full Some
            have "Read (raised f) d = Read_fetch (raised ?g) ?e"
              by (simp add: Read_def Driver_EndOfFile_def GetBlocksPerNode_def GetNextChunk_def
                  Let_def Flush_raised eq)
            with a show ?thesis by (simp add: Read_fetch_raised)
          qed
        qed
      qed
    qed
  qed
qed

lemma Read_sim:
  assumes "Read f d = Inr (b, f1, d1)" "g = f \<or> g = raised f"
  shows "\<exists>g1. Read g d = Inr (b, g1, d1) \<and> (g1 = f1 \<or> g1 = raised f1)"
  using assms Read_raised [OF assms(1)] by auto

lemma Read_n_sim:
  assumes "Read_n m f d = Inr (bs, f1, d1)" "g = f \<or> g = raised f"
  shows "\<exists>g1. Read_n m g d = Inr (bs, g1, d1) \<and> (g1 = f1 \<or> g1 = raised f1)"
  using assms
proof (induction m arbitrary: f d bs g)
  case 0
  then show ?case by auto
next
  case (Suc m)
  from Suc.prems(1) obtain b0 h e bs0 where
    r: "Read f d = Inr (b0, h, e)" and n: "Read_n m h e = Inr (bs0, f1, d1)" and bs: "bs = b0 # bs0"
    by (auto split: sum.splits)
  from Read_sim [OF r Suc.prems(2)] obtain h' where
    r': "Read g d = Inr (b0, h', e)" and h': "h' = h \<or> h' = raised h" by blast
  from Suc.IH [OF n h'] obtain g1 where
    "Read_n m h' e = Inr (bs0, g1, d1)" "g1 = f1 \<or> g1 = raised f1" by blast
  with r' bs show ?case by simp
qed

lemma eof_boundary_fresh:
  assumes "fresh f d"
    and "0 < unat (fsize f)"
    and "chain_covers d (firstNode f) ((unat (fsize f) - 1) div unat (drvBlockSize d))"
  shows "\<exists>f1 d1 f2 d2 f3 d3.
           Read_n (unat (fsize f)) f d
             = Inr (map (file_byte d (firstNode f)) [0..<unat (fsize f)], f1, d1)
           \<and> EndOfFile f1
           \<and> Read_n (unat (fsize f) - 1) f d
               = Inr (map (file_byte d (firstNode f)) [0..<unat (fsize f) - 1], f2, d2)
           \<and> \<not> EndOfFile f2
           \<and> Read f2 d2 = Inr (file_byte d (firstNode f) (unat (fsize f) - 1), f1, d1)
           \<and> Read f1 d1 =
               Inr ((if unat (fsize f) mod unat (drvBlockSize d) = 0
                        \<and> \<not> can_advance d (block_at d (firstNode f)
                              ((unat (fsize f) - 1) div unat (drvBlockSize d)))
                     then 0 else file_byte d (firstNode f) (unat (fsize f))), f3, d3)
           \<and> (fsize f \<noteq> - 1 \<longrightarrow> EndOfFile f3)"
proof -
  define n where "n = unat (fsize f)"
  define node where "node = firstNode f"
  define B where "B = unat (drvBlockSize d)"
  have pre: "\<exists>f2 d2. Read_n (n - 1) f d = Inr (map (file_byte d node) [0..<n - 1], f2, d2)
               \<and> \<not> EndOfFile f2
               \<and> (\<exists>f1 d1. Read f2 d2 = Inr (file_byte d node (n - 1), f1, d1)
                     \<and> at_offset d f n f1 d1)"
  proof (cases "n = 1")
    case True
    from Read_first [OF assms(1,2)] assms(1) True show ?thesis
      by (auto simp: fresh_def EndOfFile_def node_def n_def)
  next
    case False
    with assms(2) have m: "1 \<le> n - 1" "n - 1 \<le> unat (fsize f)" "n - 1 < unat (fsize f)"
      by (simp_all add: n_def)
    from Read_n_fresh [OF assms(1) m(1,2) assms(3)] obtain f2 d2 where
      r: "Read_n (n - 1) f d = Inr (map (file_byte d node) [0..<n - 1], f2, d2)"
      and a: "at_offset d f (n - 1) f2 d2"
      by (auto simp: node_def)
    from a m(3) have ne: "\<not> EndOfFile f2" by (simp add: at_offset_def EndOfFile_def)
    from Read_step [OF a m(1) m(3) assms(3)] m(1) obtain f1 d1 where
      "Read f2 d2 = Inr (file_byte d node (n - 1), f1, d1)" "at_offset d f n f1 d1"
      by (auto simp: node_def)
    with r ne show ?thesis by blast
  qed
  then obtain f2 d2 f1 d1 where
    r2: "Read_n (n - 1) f d = Inr (map (file_byte d node) [0..<n - 1], f2, d2)"
    and ne: "\<not> EndOfFile f2"
    and r1: "Read f2 d2 = Inr (file_byte d node (n - 1), f1, d1)"
    and a: "at_offset d f n f1 d1"
    by blast
  from assms(2) have n: "Suc (n - 1) = n" "1 \<le> n" by (simp_all add: n_def)
  have "map (file_byte d node) [0..<Suc (n - 1)]
          = map (file_byte d node) [0..<n - 1] @ [file_byte d node (n - 1)]"
    by simp
  with n have "map (file_byte d node) [0..<n - 1] @ [file_byte d node (n - 1)]
                 = map (file_byte d node) [0..<n]"
    by simp
  with Read_n_snoc [OF r2 r1] n
  have rn: "Read_n n f d = Inr (map (file_byte d node) [0..<n], f1, d1)"
    by simp
  from a have e1: "EndOfFile f1" and ok1: "buffer_ok f1 d1" and p1: "position f1 = n"
    and s1: "fsize f1 = fsize f"
    and cb: "block_at d node ((n - 1) div B) = (current f1, blockInChunk f1)"
    by (simp_all add: at_offset_def EndOfFile_def n_def node_def B_def)
  from chain_covers_node [OF assms(3), of "(n - 1) div B"] cb have cur: "current f1 \<noteq> 0"
    by (simp add: n_def node_def B_def)
  from Read_behind [OF a n(2) cur] obtain f3 d3 where
    r3: "Read f1 d1 =
           Inr ((if n mod B = 0 \<and> \<not> can_advance d (block_at d node ((n - 1) div B))
                 then 0 else file_byte d node n), f3, d3)"
    unfolding node_def B_def by blast
  have keep: "EndOfFile f3" if "fsize f \<noteq> - 1"
  proof -
    from not_max_size [OF that] p1 have "position f1 + 1 < 18446744073709551616"
      by (simp add: n_def)
    from Read_keeps_eof [OF ok1 e1 _ this r3] p1 s1 show ?thesis by (simp add: n_def)
  qed
  from rn e1 r2 ne r1 r3 keep show ?thesis
    unfolding n_def node_def B_def by blast
qed

lemma opened_fresh:
  assumes "opened f d"
  shows "fresh (f\<lparr>flags := flags f - {FileFlagEof}\<rparr>) d"
    and "f = f\<lparr>flags := flags f - {FileFlagEof}\<rparr> \<or> f = raised (f\<lparr>flags := flags f - {FileFlagEof}\<rparr>)"
    and "\<not> EndOfFile f \<Longrightarrow> f = f\<lparr>flags := flags f - {FileFlagEof}\<rparr>"
proof -
  from assms show "fresh (f\<lparr>flags := flags f - {FileFlagEof}\<rparr>) d"
    by (auto simp: opened_def fresh_def buffer_ok_def unloaded_def)
  have a: "f = f\<lparr>flags := flags f - {FileFlagEof}\<rparr>" if "FileFlagEof \<notin> flags f"
    using that by simp
  have b: "f = raised (f\<lparr>flags := flags f - {FileFlagEof}\<rparr>)" if "FileFlagEof \<in> flags f"
    using that by (simp add: raised_def insert_absorb)
  from a b show "f = f\<lparr>flags := flags f - {FileFlagEof}\<rparr>
                   \<or> f = raised (f\<lparr>flags := flags f - {FileFlagEof}\<rparr>)"
    by blast
  from a show "f = f\<lparr>flags := flags f - {FileFlagEof}\<rparr>" if "\<not> EndOfFile f"
    using that by (simp add: EndOfFile_def)
qed

lemma raised_eof: "g = f \<or> g = raised f \<Longrightarrow> EndOfFile f \<Longrightarrow> EndOfFile g"
  by (auto simp: EndOfFile_def)

text \<open>
  C4, as the claim states it, fails. \<open>Read()\<close> does not compare the cursor with the size,
  so the read that follows \<open>size - 1\<close> bytes returns the last byte of the file, and the
  read that follows \<open>size\<close> bytes returns what the block holds behind the end of the
  file: on the file of 2 bytes (10 and 11) in a block of 4 (10, 11, 12, 13) the read
  after one byte returns 11 and the read after two bytes 12. The end-of-file flag is
  raised by a read only, so it is clear on an empty file of which \<open>size\<close> = 0 bytes have
  been read. And no operation but the step of \<open>Read\<close> into the next chunk clears it: the
  constructor \<open>File(driver)\<close> raises it, \<open>Open\<close> leaves it up, and it is still up after
  \<open>size - 1\<close> = 1 byte of the file of 2 bytes opened that way has been read.
\<close>

theorem eof_boundary_fails:
  "map_sum id fst (Read (fst (demoAfter 2 1)) (snd (demoAfter 2 1))) = Inr 11
   \<and> map_sum id fst (Read (fst (demoAfter 2 2)) (snd (demoAfter 2 2))) = Inr 12
   \<and> fsize (demoFile 0) = 0 \<and> \<not> EndOfFile (demoFile 0)
   \<and> (case File_ctor demoDriver of (f0, d0) \<Rightarrow>
        case Open f0 d0 (\<lambda>p. (2, 2)) (Some (\<lambda>i. 0)) [] of (ok, f, d) \<Rightarrow>
          ok \<and> firstNode f = 2 \<and> fsize f = 2
          \<and> map_sum id (\<lambda>(b, f1, d1). (b, EndOfFile f1)) (Read f d) = Inr (10, True))"
  by code_simp

text \<open>
  C4, amended. Take a file that is not empty, whose chain holds all its blocks, in the
  state a constructor or \<open>Open\<close> leaves it in: a buffer of one block, nothing loaded, a
  first node. Reading \<open>size\<close> bytes one at a time returns the bytes of the file and leaves
  the end-of-file flag set; reading \<open>size - 1\<close> bytes leaves it clear if it was clear at
  the start; one further \<open>Read()\<close> at that point returns the last byte of the file and
  sets the flag. A \<open>Read()\<close> after all \<open>size\<close> bytes returns the byte stored behind the end
  of the file, in the last block or in the block that follows it in the chain, and 0
  when the file ends with its last block and the chain has no block after it; it leaves
  the flag set, unless \<open>size\<close> is the largest value of its type.
\<close>

theorem eof_boundary:
  assumes "opened f d"
    and "0 < unat (fsize f)"
    and "chain_covers d (firstNode f) ((unat (fsize f) - 1) div unat (drvBlockSize d))"
  shows "\<exists>f1 d1 f2 d2 f3 d3.
           Read_n (unat (fsize f)) f d
             = Inr (map (file_byte d (firstNode f)) [0..<unat (fsize f)], f1, d1)
           \<and> EndOfFile f1
           \<and> Read_n (unat (fsize f) - 1) f d
               = Inr (map (file_byte d (firstNode f)) [0..<unat (fsize f) - 1], f2, d2)
           \<and> (\<not> EndOfFile f \<longrightarrow> \<not> EndOfFile f2)
           \<and> Read f2 d2 = Inr (file_byte d (firstNode f) (unat (fsize f) - 1), f1, d1)
           \<and> Read f1 d1 =
               Inr ((if unat (fsize f) mod unat (drvBlockSize d) = 0
                        \<and> \<not> can_advance d (block_at d (firstNode f)
                              ((unat (fsize f) - 1) div unat (drvBlockSize d)))
                     then 0 else file_byte d (firstNode f) (unat (fsize f))), f3, d3)
           \<and> (fsize f \<noteq> - 1 \<longrightarrow> EndOfFile f3)"
proof -
  define f' where "f' = f\<lparr>flags := flags f - {FileFlagEof}\<rparr>"
  define n where "n = unat (fsize f)"
  define node where "node = firstNode f"
  define behind where
    "behind = (if n mod unat (drvBlockSize d) = 0
                  \<and> \<not> can_advance d (block_at d node ((n - 1) div unat (drvBlockSize d)))
               then 0 else file_byte d node n)"
  note o = opened_fresh [OF assms(1), folded f'_def]
  have eqs: "fsize f' = fsize f" "firstNode f' = firstNode f" by (simp_all add: f'_def)
  have "\<exists>h1 d1 h2 d2 h3 d3.
          Read_n n f' d = Inr (map (file_byte d node) [0..<n], h1, d1)
          \<and> EndOfFile h1
          \<and> Read_n (n - 1) f' d = Inr (map (file_byte d node) [0..<n - 1], h2, d2)
          \<and> \<not> EndOfFile h2
          \<and> Read h2 d2 = Inr (file_byte d node (n - 1), h1, d1)
          \<and> Read h1 d1 = Inr (behind, h3, d3)
          \<and> (fsize f \<noteq> - 1 \<longrightarrow> EndOfFile h3)"
    using eof_boundary_fresh [OF o(1)] assms(2,3)
    unfolding n_def node_def behind_def eqs by simp
  then obtain h1 d1 h2 d2 h3 d3 where
    h: "Read_n n f' d = Inr (map (file_byte d node) [0..<n], h1, d1)"
    "EndOfFile h1"
    "Read_n (n - 1) f' d = Inr (map (file_byte d node) [0..<n - 1], h2, d2)"
    "\<not> EndOfFile h2"
    "Read h2 d2 = Inr (file_byte d node (n - 1), h1, d1)"
    "Read h1 d1 = Inr (behind, h3, d3)"
    "fsize f \<noteq> - 1 \<longrightarrow> EndOfFile h3"
    by blast
  from Read_n_sim [OF h(3) o(2)] obtain f2 where
    r2: "Read_n (n - 1) f d = Inr (map (file_byte d node) [0..<n - 1], f2, d2)"
    and s2: "f2 = h2 \<or> f2 = raised h2" by blast
  from Read_sim [OF h(5) s2] obtain f1 where
    r1: "Read f2 d2 = Inr (file_byte d node (n - 1), f1, d1)"
    and s1: "f1 = h1 \<or> f1 = raised h1" by blast
  from Read_sim [OF h(6) s1] obtain f3 where
    r3: "Read f1 d1 = Inr (behind, f3, d3)"
    and s3: "f3 = h3 \<or> f3 = raised h3" by blast
  from assms(2) have n: "Suc (n - 1) = n" by (simp add: n_def)
  have "map (file_byte d node) [0..<Suc (n - 1)]
          = map (file_byte d node) [0..<n - 1] @ [file_byte d node (n - 1)]"
    by simp
  with n have "map (file_byte d node) [0..<n - 1] @ [file_byte d node (n - 1)]
                 = map (file_byte d node) [0..<n]"
    by simp
  with Read_n_snoc [OF r2 r1] n
  have rn: "Read_n n f d = Inr (map (file_byte d node) [0..<n], f1, d1)"
    by simp
  have e1: "EndOfFile f1" using raised_eof [OF s1 h(2)] .
  have e3: "fsize f \<noteq> - 1 \<longrightarrow> EndOfFile f3" using raised_eof [OF s3] h(7) by blast
  have ne: "\<not> EndOfFile f2" if "\<not> EndOfFile f"
  proof -
    from o(3) [OF that] have "f = f'" .
    with r2 h(3) have "f2 = h2" by simp
    with h(4) show ?thesis by simp
  qed
  from rn e1 r2 ne r1 r3 e3 show ?thesis
    unfolding n_def node_def behind_def by blast
qed

theorem eof_boundary_witness:
  "opened (demoFile 20) demoDrv
   \<and> chain_covers demoDrv (firstNode (demoFile 20)) 4
   \<and> \<not> EndOfFile (demoFile 20)
   \<and> (\<exists>f1 d1 f2 d2 f3 d3.
         Read_n 20 (demoFile 20) demoDrv
           = Inr ([10, 11, 12, 13, 14, 15, 16, 17, 18, 19, 20, 21, 22, 23, 24, 25, 26, 27, 28, 29],
                  f1, d1)
         \<and> EndOfFile f1
         \<and> Read_n 19 (demoFile 20) demoDrv
             = Inr ([10, 11, 12, 13, 14, 15, 16, 17, 18, 19, 20, 21, 22, 23, 24, 25, 26, 27, 28],
                    f2, d2)
         \<and> \<not> EndOfFile f2
         \<and> Read f2 d2 = Inr (29, f1, d1)
         \<and> Read f1 d1 = Inr (30, f3, d3)
         \<and> EndOfFile f3)"
proof -
  have fr: "opened (demoFile 20) demoDrv" by code_simp
  have ne: "\<not> EndOfFile (demoFile 20)" by code_simp
  have sz: "unat (fsize (demoFile 20)) = 20" by code_simp
  have nm: "fsize (demoFile 20) \<noteq> - 1" by code_simp
  have bs: "unat (drvBlockSize demoDrv) = 4" by code_simp
  have ch: "chain_covers demoDrv (firstNode (demoFile 20)) 4" by code_simp
  have c1: "map (file_byte demoDrv (firstNode (demoFile 20))) [0..<20]
              = [10, 11, 12, 13, 14, 15, 16, 17, 18, 19, 20, 21, 22, 23, 24, 25, 26, 27, 28, 29]"
    by code_simp
  have c2: "map (file_byte demoDrv (firstNode (demoFile 20))) [0..<19]
              = [10, 11, 12, 13, 14, 15, 16, 17, 18, 19, 20, 21, 22, 23, 24, 25, 26, 27, 28]"
    by code_simp
  have c3: "file_byte demoDrv (firstNode (demoFile 20)) 19 = 29"
    by code_simp
  have c4: "(if (20 :: nat) mod 4 = 0
                \<and> \<not> can_advance demoDrv (block_at demoDrv (firstNode (demoFile 20)) ((20 - 1) div 4))
             then 0 else file_byte demoDrv (firstNode (demoFile 20)) 20) = 30"
    by code_simp
  have h2: "0 < unat (fsize (demoFile 20))" by (simp add: sz)
  have h4: "chain_covers demoDrv (firstNode (demoFile 20))
              ((unat (fsize (demoFile 20)) - 1) div unat (drvBlockSize demoDrv))"
    using ch by (simp add: sz bs)
  from eof_boundary [OF fr h2 h4] fr ch nm ne show ?thesis
    unfolding sz bs c1 c4 by (simp add: c2 c3)
qed

text \<open>
  The proviso on the largest size is needed: with the cursor at the end of a file of
  \<open>2^64 - 1\<close> bytes that is also the end of a chunk, the next \<open>Read()\<close> steps into the next
  chunk, which clears the flag (line 171), and the sum of line 181 then wraps around to
  0, so that the flag is not raised again. Here the blocks have 3 bytes and the chunks
  one block.
\<close>

lemma eof_flag_lost_at_largest_size:
  "map_sum id (\<lambda>(b, f1, d1). (positionInFile f1, positionInBuffer f1, EndOfFile f1))
     (Read \<lparr>firstNode = 2, current = 2, blockBuffer = Some [0, 0, 0], flags = {FileFlagEof},
             positionInFile = - 4, fsize = - 1, blockInChunk = 0, blockSize = 3,
             positionInBuffer = 3\<rparr>
           (demoDriver\<lparr>drvBlockSize := 3, drvBlocksPerNode := (\<lambda>n. 1)\<rparr>))
   = Inr (- 1, 1, False)"
  by code_simp

lemma fresh_opened: "fresh f d \<Longrightarrow> opened f d"
  by (simp add: fresh_def opened_def)

lemma ctor_opened:
  assumes "0 < drvBlockSize d" "resolve filePath = (node, sz)" "node \<noteq> 0"
  shows "opened (fst (File_ctor_node d node sz (Some g))) (snd (File_ctor_node d node sz (Some g)))"
    and "opened (fst (File_ctor_path d resolve (Some g) filePath node0 None n0))
           (snd (File_ctor_path d resolve (Some g) filePath node0 None n0))"
    and "opened (fst (snd (Open (fst (File_ctor d)) (snd (File_ctor d)) resolve (Some g) filePath)))
           (snd (snd (Open (fst (File_ctor d)) (snd (File_ctor d)) resolve (Some g) filePath)))"
  using assms
  by (auto simp: File_ctor_def File_ctor_node_def File_ctor_path_def Open_def GetParameter_def
      Let_def opened_def buffer_ok_def unloaded_def new_nothrow_def logCall_def)

lemma ctor_node_fresh:
  assumes "0 < drvBlockSize d" "node \<noteq> 0"
  shows "fresh (fst (File_ctor_node d node sz (Some g))) (snd (File_ctor_node d node sz (Some g)))"
  using assms
  by (auto simp: File_ctor_node_def GetParameter_def Let_def fresh_def buffer_ok_def
      unloaded_def new_nothrow_def)

lemma ctor_path_fresh:
  assumes "0 < drvBlockSize d" "resolve filePath = (node, sz)" "node \<noteq> 0"
  shows "fresh (fst (File_ctor_path d resolve (Some g) filePath node0 None n0))
           (snd (File_ctor_path d resolve (Some g) filePath node0 None n0))"
  using assms
  by (auto simp: File_ctor_path_def Open_def GetParameter_def Let_def fresh_def buffer_ok_def
      unloaded_def new_nothrow_def)

subsection \<open>The bulk read against single reads\<close>

text \<open>
  The bulk read is compared with the single-byte read turn by turn: what the bulk read
  copies out of the buffer first, and what each turn of its loop copies out of the block
  it has loaded, is what as many single-byte reads return, and both leave the same driver
  and the same file, up to the end-of-file check that closes the bulk read.
\<close>

lemma Read_bulk_eof_idem [simp]: "Read_bulk_eof (Read_bulk_eof f) = Read_bulk_eof f"
  by (simp add: Read_bulk_eof_def)

lemma Read_bulk_eof_fields [simp]:
  "positionInBuffer (Read_bulk_eof f) = positionInBuffer f"
  "positionInFile (Read_bulk_eof f) = positionInFile f"
  "fsize (Read_bulk_eof f) = fsize f"
  "blockSize (Read_bulk_eof f) = blockSize f"
  "blockBuffer (Read_bulk_eof f) = blockBuffer f"
  "current (Read_bulk_eof f) = current f"
  "blockInChunk (Read_bulk_eof f) = blockInChunk f"
  "firstNode (Read_bulk_eof f) = firstNode f"
  by (simp_all add: Read_bulk_eof_def)

lemma position_eof_fields [simp]: "position (Read_bulk_eof f) = position f"
  by (simp add: position_def)

lemma Read_bulk_eof_below:
  assumes "position f < unat (fsize f)"
  shows "Read_bulk_eof f = f"
proof -
  from assms unat_size_bound [of "fsize f"] have "position f < 18446744073709551616" by simp
  from position_eof [OF this] assms show ?thesis by simp
qed

lemma Read_n_add:
  "Read_n (a + b) f d =
     (case Read_n a f d of
        Inl e \<Rightarrow> Inl e
      | Inr (xs, g, e) \<Rightarrow>
          (case Read_n b g e of
             Inl e' \<Rightarrow> Inl e'
           | Inr (ys, h, e') \<Rightarrow> Inr (xs @ ys, h, e')))"
  by (induction a arbitrary: f d) (auto split: sum.splits)

lemma unat_uint_of_nat:
  "m < 4294967296 \<Longrightarrow> unat (of_nat m :: uint) = m"
  by (simp add: unat_of_nat)

lemma Read_n_buffer:
  assumes "buffer_ok f d" "blockBuffer f = Some buf"
    and "unat (positionInBuffer f) + m \<le> unat (blockSize f)"
    and "position f + m \<le> unat (fsize f)"
  shows "Read_n m f d =
           Inr (take m (drop (unat (positionInBuffer f)) buf),
                (if m = 0 then f
                 else Read_bulk_eof (f\<lparr>positionInBuffer := positionInBuffer f + of_nat m\<rparr>)),
                d)"
  using assms
proof (induction m arbitrary: f)
  case 0
  then show ?case by simp
next
  case (Suc m)
  from Suc.prems(1,2) have len: "length buf = unat (blockSize f)" by (auto simp: buffer_ok_def)
  from Suc.prems(3) have lt: "positionInBuffer f < blockSize f" by (simp add: word_less_nat_alt)
  then have "\<not> blockSize f \<le> positionInBuffer f" by simp
  then have r: "Read f d = Read_byte f d" by (simp add: Read_def)
  from Suc.prems(3) len have plen: "unat (positionInBuffer f) < length buf" by simp
  let ?g = "f\<lparr>positionInBuffer := positionInBuffer f + 1\<rparr>"
  have one: "unat (positionInBuffer f + 1) = unat (positionInBuffer f) + 1"
    using lt by (rule unat_uint_Suc)
  have rb: "Read f d = Inr (buf ! unat (positionInBuffer f), Read_bulk_eof ?g, d)"
    using Read_byte_eq [OF Suc.prems(2) plen] r by simp
  show ?case
  proof (cases "m = 0")
    case True
    with rb plen show ?thesis by (simp add: take_Suc_conv_app_nth hd_drop_conv_nth take_Suc)
  next
    case False
    have pg: "position ?g = position f + 1" by (simp add: position_def one)
    with Suc.prems(4) False have "position ?g < unat (fsize ?g)" by simp
    then have e: "Read_bulk_eof ?g = ?g" by (rule Read_bulk_eof_below)
    have okg: "buffer_ok ?g d"
      using Suc.prems(1,2) inc_le [OF lt] by (auto simp: buffer_ok_def)
    have "Read_n m ?g d =
            Inr (take m (drop (unat (positionInBuffer ?g)) buf),
                 (if m = 0 then ?g
                  else Read_bulk_eof (?g\<lparr>positionInBuffer := positionInBuffer ?g + of_nat m\<rparr>)), d)"
      using Suc.prems(2-4) pg okg by (intro Suc.IH) (simp_all add: one)
    with False have n: "Read_n m ?g d =
            Inr (take m (drop (Suc (unat (positionInBuffer f))) buf),
                 Read_bulk_eof (f\<lparr>positionInBuffer := positionInBuffer f + of_nat (Suc m)\<rparr>), d)"
      by (simp add: one add.assoc)
    have "buf ! unat (positionInBuffer f) # take m (drop (Suc (unat (positionInBuffer f))) buf)
            = take (Suc m) (drop (unat (positionInBuffer f)) buf)"
      using plen by (simp add: Cons_nth_drop_Suc [symmetric])
    with rb e n show ?thesis by simp
  qed
qed


lemma Read_via_advance:
  assumes "Read_bulk_advance f d = Inr (False, g, e)"
    and "blockSize f \<le> positionInBuffer f" "blockBuffer f \<noteq> None"
  shows "Read f d = Read_fetch g e"
  using assms
  by (auto simp: Read_def Read_bulk_advance_def Driver_EndOfFile_def GetBlocksPerNode_def
      GetNextChunk_def Let_def split: if_splits sum.splits)

lemma memcpy_from_start:
  "unat c \<le> length buf \<Longrightarrow> memcpy_from buf 0 c = Inr (take (unat c) buf)"
  by (auto simp: memcpy_from_def unat_eq_0)

lemma Read_bulk_copy_eq:
  assumes "buffer_ok g e" "blockBuffer g \<noteq> None" "positionInFile g < fsize g"
  shows "Read_bulk_copy g e dest k n =
           (let blk = map (drvStorage e (current g + blockInChunk g)) [0..<unat (drvBlockSize e)];
                total = (ucast (fsize g - positionInFile g) :: uint);
                c0 = min (n - k) (blockSize g);
                c = (if c0 > total then total else c0)
            in Inr (dest @ take (unat c) blk, k + c,
                    (if c0 > total
                     then g\<lparr>blockBuffer := Some blk, flags := flags g \<union> {FileFlagEof},
                            positionInBuffer := c\<rparr>
                     else g\<lparr>blockBuffer := Some blk, positionInBuffer := c\<rparr>),
                    logCall (CallReadBlock (current g + blockInChunk g)) e))"
proof -
  from assms obtain buf where b: "blockBuffer g = Some buf" "length buf = unat (drvBlockSize e)"
    and bs: "blockSize g = drvBlockSize e"
    by (auto simp: buffer_ok_def split: option.splits)
  let ?blk = "map (drvStorage e (current g + blockInChunk g)) [0..<unat (drvBlockSize e)]"
  let ?total = "ucast (fsize g - positionInFile g) :: uint"
  let ?c0 = "min (n - k) (drvBlockSize e)"
  have "?c0 \<le> drvBlockSize e" by simp
  then have m0: "memcpy_from ?blk 0 ?c0 = Inr (take (unat ?c0) ?blk)"
    by (intro memcpy_from_start) (simp add: word_le_nat_alt)
  show ?thesis
  proof (cases "?c0 > ?total")
    case True
    then have "?total \<le> drvBlockSize e" by (simp add: min_def split: if_splits)
    then have "memcpy_from ?blk 0 ?total = Inr (take (unat ?total) ?blk)"
      by (intro memcpy_from_start) (simp add: word_le_nat_alt)
    with True assms(3) show ?thesis
      by (simp add: Read_bulk_copy_def b bs ReadBlock_ok Let_def del: min_less_iff_conj)
  next
    case False
    with m0 assms(3) show ?thesis
      by (simp add: Read_bulk_copy_def b bs ReadBlock_ok Let_def del: min_less_iff_conj)
  qed
qed


lemma Read_bulk_eof_flag:
  assumes "unat (fsize g) \<le> position g" "position g < 18446744073709551616"
  shows "Read_bulk_eof (g\<lparr>flags := flags g \<union> {FileFlagEof}\<rparr>) = Read_bulk_eof g"
proof -
  let ?g = "g\<lparr>flags := flags g \<union> {FileFlagEof}\<rparr>"
  have "position ?g = position g" by (simp add: position_def)
  with position_eof [of ?g] position_eof [of g] assms show ?thesis by simp
qed

lemma bulk_turn:
  assumes ok: "buffer_ok f d" and buf: "blockBuffer f \<noteq> None"
    and small: "unat (fsize f) < 4294967296"
    and pos: "unloaded f \<or> position f \<le> unat (fsize f)"
    and full: "positionInBuffer f = blockSize f"
    and cond: "ucast (positionInBuffer f) + positionInFile f < fsize f" "k < n"
    and body: "Read_bulk_body f d dest k n = Inr (False, dest2, k2, f2, d2)"
  shows "\<exists>c bytes h. 0 < unat c \<and> unat c \<le> unat n - unat k \<and> k2 = k + c
           \<and> dest2 = dest @ bytes
           \<and> Read_n (unat c) f d = Inr (bytes, h, d2)
           \<and> Read_bulk_eof h = Read_bulk_eof f2
           \<and> (position f2 < unat (fsize f) \<longrightarrow> h = f2)
           \<and> position f2 \<le> unat (fsize f)"
proof -
  from body obtain g e where a: "Read_bulk_advance f d = Inr (False, g, e)"
    and c: "Read_bulk_copy g e dest k n = Inr (dest2, k2, f2, d2)"
    by (auto simp: Read_bulk_body_def split: sum.splits if_splits)
  note fr = Read_bulk_advance_frame [OF a]
  from Read_bulk_advance_ok [OF ok] a fr buf have okg: "buffer_ok g e" "blockBuffer g \<noteq> None"
    by auto
  from cond(1) have s0: "0 < unat (fsize f)" by (simp add: word_less_nat_alt)
  have pg: "unat (positionInFile g) < unat (fsize f)"
  proof (cases "current f = 0")
    case True
    with fr s0 show ?thesis by simp
  next
    case nz: False
    then have "\<not> unloaded f" by (simp add: unloaded_def)
    with pos have le: "position f \<le> unat (fsize f)" by simp
    from wcond_position [OF le] cond(1) have lt: "position f < unat (fsize f)" by simp
    with full small have
      "unat (positionInFile f + ucast (blockSize f)) = unat (positionInFile f) + unat (blockSize f)"
      by (intro unat_advance) (simp add: position_def)
    with fr nz lt full show ?thesis by (simp add: position_def)
  qed
  with fr have lt: "positionInFile g < fsize g" by (simp add: word_less_nat_alt)
  define blk where "blk = map (drvStorage e (current g + blockInChunk g)) [0..<unat (drvBlockSize e)]"
  define total :: uint where "total = ucast (fsize g - positionInFile g)"
  define c0 where "c0 = min (n - k) (blockSize g)"
  define c where "c = (if c0 > total then total else c0)"
  define gc where "gc = g\<lparr>blockBuffer := Some blk, positionInBuffer := c\<rparr>"
  from okg have bs: "blockSize g = drvBlockSize e" "0 < unat (blockSize g)"
    by (auto simp: buffer_ok_def word_less_nat_alt)
  have total: "unat total = unat (fsize f) - unat (positionInFile g)"
    unfolding total_def using pg small fr by (simp add: unat_remaining)
  from cond(2) have nk: "unat (n - k) = unat n - unat k" "0 < unat n - unat k"
    by (simp_all add: unat_sub word_less_nat_alt word_le_nat_alt)
  have c0: "unat c0 = min (unat n - unat k) (unat (blockSize g))"
    by (simp add: c0_def min_def word_le_nat_alt nk)
  have cu: "unat c = min (unat c0) (unat total)"
    by (auto simp: c_def min_def word_less_nat_alt)
  have cpos: "0 < unat c" using cu c0 nk bs total pg by simp
  have cle: "unat c \<le> unat n - unat k" "unat c \<le> unat (blockSize g)" "unat c \<le> unat total"
    using cu c0 by simp_all
  from Read_bulk_copy_eq [OF okg lt, of dest k n] c
  have res: "dest2 = dest @ take (unat c) blk" "k2 = k + c"
    "f2 = (if c0 > total then gc\<lparr>flags := flags g \<union> {FileFlagEof}\<rparr> else gc)"
    "d2 = logCall (CallReadBlock (current g + blockInChunk g)) e"
    by (simp_all add: Let_def blk_def total_def c0_def c_def gc_def split: if_splits)
  have pgc: "position gc = unat (positionInFile g) + unat c" by (simp add: gc_def position_def)
  have fgc: "fsize gc = fsize f" "flags gc = flags g" using fr by (simp_all add: gc_def)
  have rel: "Read_bulk_eof gc = Read_bulk_eof f2"
  proof (cases "c0 > total")
    case True
    then have "c = total" by (simp add: c_def)
    with pgc total pg have "unat (fsize gc) \<le> position gc" by (simp add: fgc)
    moreover from pgc cle total pg small have "position gc < 18446744073709551616" by simp
    ultimately have "Read_bulk_eof (gc\<lparr>flags := flags gc \<union> {FileFlagEof}\<rparr>) = Read_bulk_eof gc"
      by (rule Read_bulk_eof_flag)
    with True res(3) fgc show ?thesis by simp
  next
    case False
    with res(3) show ?thesis by simp
  qed
  have below: "Read_bulk_eof gc = f2" if "position f2 < unat (fsize f)"
  proof -
    have p2: "position f2 = position gc" using res(3) by (simp add: position_def gc_def)
    have "\<not> c0 > total"
    proof
      assume "c0 > total"
      then have "c = total" by (simp add: c_def)
      with pgc total pg p2 that show False by simp
    qed
    with res(3) have "f2 = gc" by simp
    moreover from that p2 fgc have "Read_bulk_eof gc = gc" by (intro Read_bulk_eof_below) simp
    ultimately show ?thesis by simp
  qed
  from full have ge: "blockSize f \<le> positionInBuffer f" by simp
  let ?g1 = "g\<lparr>blockBuffer := Some blk, positionInBuffer := 1\<rparr>"
  have r1: "Read f d = Inr (drvStorage e (current g + blockInChunk g) 0, Read_bulk_eof ?g1, d2)"
    using Read_via_advance [OF a ge buf] Read_fetch_result [OF okg] res(4) by (simp add: blk_def)
  have blen: "length blk = unat (blockSize g)" by (simp add: blk_def bs)
  with bs have b0: "blk ! 0 = drvStorage e (current g + blockInChunk g) 0"
    by (simp add: blk_def)
  obtain m where m: "unat c = Suc m" using cpos by (cases "unat c") auto
  have cw: "c = 1 + of_nat m"
  proof -
    have "c = of_nat (unat c)" by simp
    also have "\<dots> = 1 + of_nat m" by (simp add: m)
    finally show ?thesis .
  qed
  have rn: "Read_n (unat c) f d = Inr (take (unat c) blk, Read_bulk_eof gc, d2)"
  proof (cases "m = 0")
    case True
    with m cw have "c = 1" by simp
    moreover have "take (Suc 0) blk = [blk ! 0]"
      using blen bs by (cases blk) simp_all
    ultimately show ?thesis using r1 b0 True m by (simp add: gc_def)
  next
    case False
    have okg1: "buffer_ok ?g1 d2"
      using okg bs blen res(4) by (auto simp: buffer_ok_def word_le_nat_alt)
    have pg1: "position ?g1 = unat (positionInFile g) + 1" by (simp add: position_def)
    with pgc m False cle total pg fr have "position ?g1 < unat (fsize ?g1)" by simp
    then have e1: "Read_bulk_eof ?g1 = ?g1" by (rule Read_bulk_eof_below)
    have "Read_n m ?g1 d2 =
            Inr (take m (drop (unat (positionInBuffer ?g1)) blk),
                 (if m = 0 then ?g1
                  else Read_bulk_eof (?g1\<lparr>positionInBuffer := positionInBuffer ?g1 + of_nat m\<rparr>)),
                 d2)"
      using okg1 m cle pg1 pgc total pg fr
      by (intro Read_n_buffer) simp_all
    with False cw have n: "Read_n m ?g1 d2 = Inr (take m (drop 1 blk), Read_bulk_eof gc, d2)"
      by (simp add: gc_def)
    have "blk ! 0 # take m (drop 1 blk) = take (Suc m) blk"
      using blen bs by (cases blk) simp_all
    with r1 e1 n b0 m show ?thesis by simp
  qed
  have p2: "position f2 \<le> unat (fsize f)"
    using res(3) pgc cle(3) total pg by (simp add: position_def gc_def)
  show ?thesis
    by (intro exI [of _ c] exI [of _ "take (unat c) blk"] exI [of _ "Read_bulk_eof gc"])
      (use cpos cle(1) res(1,2) rn rel below p2 in simp)
qed


lemma Read_bulk_body_break:
  "Read_bulk_body f d dest k n = Inr (True, dest2, k2, f2, d2) \<Longrightarrow> dest2 = dest \<and> k2 = k"
  by (auto simp: Read_bulk_body_def split: sum.splits if_splits)

lemma bulk_loop_singles:
  assumes "Read_bulk_loop f d dest k n = Some (Inr (dest1, k1, f1, d1))"
    and "buffer_ok f d" "blockBuffer f \<noteq> None"
    and "unat (fsize f) < 4294967296"
    and "unloaded f \<or> position f \<le> unat (fsize f)"
    and "k < n \<and> ucast (positionInBuffer f) + positionInFile f < fsize f
           \<longrightarrow> positionInBuffer f = blockSize f"
    and "k \<le> n"
  shows "k \<le> k1 \<and> k1 \<le> n
         \<and> (\<exists>bytes h e. dest1 = dest @ bytes
               \<and> Read_n (unat k1 - unat k) f d = Inr (bytes, h, e)
               \<and> (k1 = n \<longrightarrow> e = d1 \<and> Read_bulk_eof h = Read_bulk_eof f1))"
  using assms
proof (induction "unat n - unat k" arbitrary: f d dest k rule: less_induct)
  case less
  note loop = less.prems(1) and ok = less.prems(2) and buf = less.prems(3)
    and small = less.prems(4) and pos = less.prems(5) and entry = less.prems(6)
    and kn = less.prems(7)
  show ?case
  proof (cases "k < n \<and> ucast (positionInBuffer f) + positionInFile f < fsize f")
    case False
    with loop have "dest1 = dest" "k1 = k" "f1 = f" "d1 = d"
      by (simp_all add: Read_bulk_loop.simps [of f d dest k n])
    with kn show ?thesis by simp
  next
    case True
    with entry have full: "positionInBuffer f = blockSize f" by simp
    from Read_bulk_body_ok [OF ok buf, of dest k n] obtain brk dest2 k2 f2 d2 where
      body: "Read_bulk_body f d dest k n = Inr (brk, dest2, k2, f2, d2)"
      and ok2: "buffer_ok f2 d2" "blockBuffer f2 \<noteq> None"
      by blast
    from Read_bulk_body_inside [OF body small pos full] True
    have ins: "fsize f2 = fsize f" "unloaded f2 \<or> position f2 \<le> unat (fsize f)"
      "\<not> brk \<and> k2 < n \<and> position f2 < unat (fsize f) \<longrightarrow> positionInBuffer f2 = blockSize f2"
      by auto
    show ?thesis
    proof (cases brk)
      case True
      with Read_bulk_body_break [of f d dest k n dest2 k2 f2 d2] body
      have "k2 = k" "dest2 = dest" by simp_all
      with True \<open>k < n \<and> _\<close> body loop have "k1 = k" "dest1 = dest"
        by (simp_all add: Read_bulk_loop.simps [of f d dest k n])
      with \<open>k < n \<and> _\<close> show ?thesis by auto
    next
      case False
      with True body loop
      have loop2: "Read_bulk_loop f2 d2 dest2 k2 n = Some (Inr (dest1, k1, f1, d1))"
        by (simp add: Read_bulk_loop.simps [of f d dest k n])
      from False body have body': "Read_bulk_body f d dest k n = Inr (False, dest2, k2, f2, d2)"
        by simp
      from bulk_turn [OF ok buf small pos full _ _ body'] True obtain c bytes h where
        t: "0 < unat c" "unat c \<le> unat n - unat k" "k2 = k + c" "dest2 = dest @ bytes"
        "Read_n (unat c) f d = Inr (bytes, h, d2)" "Read_bulk_eof h = Read_bulk_eof f2"
        "position f2 < unat (fsize f) \<longrightarrow> h = f2" "position f2 \<le> unat (fsize f)"
        by blast
      from kn have kn': "unat k \<le> unat n" by (simp add: word_le_nat_alt)
      have k2: "unat k2 = unat k + unat c"
        unfolding t(3) using t(2) kn' unat_uint_bound [of n] by (intro unat_uint_add) linarith
      with t(2) kn' have k2n: "k2 \<le> n" by (simp add: word_le_nat_alt)
      from t(8) ins(1) have le2: "position f2 \<le> unat (fsize f2)" by simp
      have entry2: "k2 < n \<and> ucast (positionInBuffer f2) + positionInFile f2 < fsize f2
                      \<longrightarrow> positionInBuffer f2 = blockSize f2"
        using wcond_position [OF le2] ins(1,3) False by simp
      have meas: "unat n - unat k2 < unat n - unat k" using k2 t(1,2) by simp
      from less.hyps [OF meas loop2 ok2 _ _ entry2 k2n] small ins(1) le2 obtain bytes' h' e' where
        ih: "k2 \<le> k1" "k1 \<le> n" "dest1 = dest2 @ bytes'"
        "Read_n (unat k1 - unat k2) f2 d2 = Inr (bytes', h', e')"
        "k1 = n \<longrightarrow> e' = d1 \<and> Read_bulk_eof h' = Read_bulk_eof f1"
        by auto
      from ih(1) have k21: "unat k2 \<le> unat k1" by (simp add: word_le_nat_alt)
      with k2 have kk1: "k \<le> k1" by (simp add: word_le_nat_alt)
      have split: "unat k1 - unat k = unat c + (unat k1 - unat k2)" using k2 k21 by simp
      have "\<exists>bytes h e. dest1 = dest @ bytes
               \<and> Read_n (unat k1 - unat k) f d = Inr (bytes, h, e)
               \<and> (k1 = n \<longrightarrow> e = d1 \<and> Read_bulk_eof h = Read_bulk_eof f1)"
      proof (cases "unat k1 - unat k2 = 0")
        case True
        with ih(4) have "bytes' = []" "h' = f2" "e' = d2" by simp_all
        with t ih True split show ?thesis by simp
      next
        case more: False
        then have "k2 \<noteq> k1" by auto
        with loop2 have "ucast (positionInBuffer f2) + positionInFile f2 < fsize f2"
          by (auto simp: Read_bulk_loop.simps [of f2 d2 dest2 k2 n] split: if_splits)
        with wcond_position [OF le2] ins(1) have "position f2 < unat (fsize f)" by simp
        with t(7) have "h = f2" by simp
        with t ih split show ?thesis by (simp add: Read_n_add)
      qed
      with kk1 ih(2) show ?thesis by simp
    qed
  qed
qed

lemma bulk_first_singles:
  assumes "buffer_ok f d" "blockBuffer f = Some buf"
    and "unat (fsize f) < 4294967296"
    and "unloaded f \<or> position f \<le> unat (fsize f)"
    and "Read_bulk_first f buf n = Inr (dest, k, f1)"
  shows "\<exists>h. Read_n (unat k) f d = Inr (dest, h, d)
           \<and> Read_bulk_eof h = Read_bulk_eof f1
           \<and> (unloaded f1 \<or> position f1 < unat (fsize f) \<longrightarrow> h = f1)
           \<and> k \<le> n"
proof -
  from assms(1) have ple: "positionInBuffer f \<le> blockSize f" by (auto simp: buffer_ok_def)
  from assms(1,2) have len: "length buf = unat (blockSize f)" by (auto simp: buffer_ok_def)
  define total :: uint where
    "total = (if ucast (positionInBuffer f) + positionInFile f < fsize f
              then ucast (fsize f - (ucast (positionInBuffer f) + positionInFile f)) else 0)"
  define k0 where "k0 = min n (blockSize f - positionInBuffer f)"
  have r: "Read_bulk_first f buf n =
        (case memcpy_from buf (positionInBuffer f) (if k0 > total then total else k0) of
           Inl e \<Rightarrow> Inl e
         | Inr dest \<Rightarrow> Inr (dest, (if k0 > total then total else k0),
               f\<lparr>positionInBuffer := positionInBuffer f + (if k0 > total then total else k0)\<rparr>))"
    unfolding Read_bulk_first_def Let_def k0_def total_def ..
  with assms(5) have k: "k = (if k0 > total then total else k0)"
    and f1: "f1 = f\<lparr>positionInBuffer := positionInBuffer f + k\<rparr>"
    and cp: "memcpy_from buf (positionInBuffer f) k = Inr dest"
    by (auto split: sum.splits)
  have kt: "unat k \<le> unat total" using k by (auto simp: word_le_nat_alt word_less_nat_alt)
  have "k \<le> k0" using k by auto
  then have kn: "k \<le> n" by (simp add: k0_def)
  have "k \<le> k0" using k by auto
  also have "k0 \<le> blockSize f - positionInBuffer f" by (simp add: k0_def)
  finally have "unat k \<le> unat (blockSize f - positionInBuffer f)" by (simp add: word_le_nat_alt)
  with ple have kb: "unat k \<le> unat (blockSize f) - unat (positionInBuffer f)"
    by (simp add: unat_uint_sub)
  from ple have pb: "unat (positionInBuffer f) \<le> unat (blockSize f)" by (simp add: word_le_nat_alt)
  show ?thesis
  proof (cases "k = 0")
    case True
    with cp have "dest = []" by (simp add: memcpy_from_def)
    with True f1 kn show ?thesis by simp
  next
    case False
    then have kpos: "0 < unat k" by (simp add: unat_gt_0)
    with kb have "positionInBuffer f \<noteq> blockSize f" by auto
    then have "\<not> unloaded f" by (simp add: unloaded_def)
    with assms(4) have le: "position f \<le> unat (fsize f)" by simp
    have w: "unat (ucast (positionInBuffer f) + positionInFile f) = position f"
      using le unat_size_bound [of "fsize f"] by (intro position_word) simp
    have total: "unat total = unat (fsize f) - position f"
    proof (cases "position f < unat (fsize f)")
      case True
      with wcond_position [OF le]
      have "total = ucast (fsize f - (ucast (positionInBuffer f) + positionInFile f))"
        by (simp add: total_def)
      moreover have "unat (ucast (fsize f - (ucast (positionInBuffer f) + positionInFile f)) :: uint)
                       = unat (fsize f) - unat (ucast (positionInBuffer f) + positionInFile f)"
        using True w assms(3) by (intro unat_remaining) simp_all
      ultimately show ?thesis by (simp add: w)
    next
      case False
      with wcond_position [OF le] le show ?thesis by (simp add: total_def)
    qed
    from cp False kb pb len have dest: "dest = take (unat k) (drop (unat (positionInBuffer f)) buf)"
      by (simp add: memcpy_from_def split: if_splits)
    have a: "unat (positionInBuffer f) + unat k \<le> unat (blockSize f)" using kb pb by simp
    have b: "position f + unat k \<le> unat (fsize f)" using kt total le by simp
    have rn: "Read_n (unat k) f d = Inr (dest, Read_bulk_eof f1, d)"
      using Read_n_buffer [OF assms(1,2) a b] kpos by (simp add: dest f1)
    have sum: "unat (positionInBuffer f + k) = unat (positionInBuffer f) + unat k"
      using kb pb unat_uint_bound [of "blockSize f"] by (intro unat_uint_add) linarith
    have p1: "position f1 = position f + unat k" by (simp add: f1 position_def sum)
    have "unat (- 1 :: TFileSize) = 18446744073709551615" by (simp add: unsigned_minus_1_eq_mask mask_eq_exp_minus_1)
    then have nu1: "\<not> unloaded f1" using le assms(3) f1
      by (auto simp: unloaded_def position_def)
    have fs: "fsize f1 = fsize f" by (simp add: f1)
    have "Read_bulk_eof f1 = f1" if "position f1 < unat (fsize f)"
      using that fs by (intro Read_bulk_eof_below) simp
    with rn nu1 kn show ?thesis by simp
  qed
qed

lemma bulk_singles:
  assumes "buffer_ok f d"
    and "unat (fsize f) < 4294967296"
    and "unloaded f \<or> position f \<le> unat (fsize f)"
    and "Read_bulk f d n = Some (Inr (dest, k, f1, d1))"
  shows "k \<le> n
         \<and> (\<exists>h e. Read_n (unat k) f d = Inr (dest, h, e)
               \<and> (k = n \<longrightarrow> e = d1 \<and> Read_bulk_eof h = Read_bulk_eof f1))"
proof (cases "blockBuffer f")
  case None
  with assms(4) show ?thesis by (auto simp: Read_bulk_def)
next
  case (Some buf)
  from assms(4) Some obtain dest0 k0 f0 f2 where
    first: "Read_bulk_first f buf n = Inr (dest0, k0, f0)"
    and loop: "Read_bulk_loop f0 d dest0 k0 n = Some (Inr (dest, k, f2, d1))"
    and f1: "f1 = Read_bulk_eof f2"
    by (auto simp: Read_bulk_def split: option.splits sum.splits)
  from Read_bulk_first_ok [OF assms(1) Some, of n] first
  have ok0: "buffer_ok f0 d" "blockBuffer f0 \<noteq> None" by auto
  from Read_bulk_first_inside [OF assms(1) Some assms(2,3) first]
  have a: "fsize f0 = fsize f" "unloaded f0 \<or> position f0 \<le> unat (fsize f)"
    "k0 < n \<and> ucast (positionInBuffer f0) + positionInFile f0 < fsize f0
       \<longrightarrow> positionInBuffer f0 = blockSize f0"
    by auto
  from bulk_first_singles [OF assms(1) Some assms(2,3) first] obtain h0 where
    s0: "Read_n (unat k0) f d = Inr (dest0, h0, d)" "Read_bulk_eof h0 = Read_bulk_eof f0"
    "unloaded f0 \<or> position f0 < unat (fsize f) \<longrightarrow> h0 = f0" "k0 \<le> n"
    by blast
  from bulk_loop_singles [OF loop ok0 _ _ a(3) s0(4)] a(1,2) assms(2) obtain bytes h e where
    s1: "k0 \<le> k" "k \<le> n" "dest = dest0 @ bytes"
    "Read_n (unat k - unat k0) f0 d = Inr (bytes, h, e)"
    "k = n \<longrightarrow> e = d1 \<and> Read_bulk_eof h = Read_bulk_eof f2"
    by auto
  from s1(1) have split: "unat k = unat k0 + (unat k - unat k0)" by (simp add: word_le_nat_alt)
  have "\<exists>h e. Read_n (unat k) f d = Inr (dest, h, e)
               \<and> (k = n \<longrightarrow> e = d1 \<and> Read_bulk_eof h = Read_bulk_eof f1)"
  proof (cases "k0 = k")
    case True
    with s1(4) have "bytes = []" "h = f0" "e = d" by simp_all
    with True s0 s1 f1 show ?thesis by simp
  next
    case False
    with s1(1,2) have lt: "k0 < n" by simp
    from False loop have wc: "ucast (positionInBuffer f0) + positionInFile f0 < fsize f0"
      by (auto simp: Read_bulk_loop.simps [of f0 d dest0 k0 n] split: if_splits)
    have "h0 = f0"
    proof (cases "unloaded f0")
      case True
      with s0(3) show ?thesis by simp
    next
      case False
      with a(1,2) have "position f0 \<le> unat (fsize f0)" by simp
      from wcond_position [OF this] wc a(1) s0(3) show ?thesis by simp
    qed
    with s0(1) s1 f1 have "Read_n (unat k0 + (unat k - unat k0)) f d = Inr (dest, h, e)"
      by (simp add: Read_n_add)
    with split s1(5) f1 show ?thesis by auto
  qed
  with s1(2) show ?thesis by simp
qed

text \<open>
  The bulk read serves the whole request, \<open>k = N\<close>, when the file is not written to, its
  chain holds all its blocks and \<open>N\<close> is at most the number of bytes between the read
  position and the size: from a state reached by reading the file in sequence, and from
  the state the constructor leaves a file of at least one block in. The bytes are then
  those of the file.
\<close>

lemma same_driver_next_block: "same_driver e d \<Longrightarrow> next_block e cb = next_block d cb"
  by (cases cb) (simp add: same_driver_def next_block_def)

lemma same_driver_block_at: "same_driver e d \<Longrightarrow> block_at e node j = block_at d node j"
  by (induction j) (simp_all add: same_driver_next_block [of e d])

lemma same_driver_chain_covers:
  assumes "same_driver e d"
  shows "chain_covers e node J = chain_covers d node J"
proof -
  have "can_advance e cb = can_advance d cb" for cb
    using assms by (cases cb) (simp add: can_advance_def same_driver_def)
  then show ?thesis
    by (simp add: chain_covers_def same_driver_block_at [OF assms])
qed

lemma unat_uint_min: "unat (min a b :: uint) = min (unat a) (unat b)"
  by (simp add: min_def word_le_nat_alt)

lemma bulk_advance_next:
  assumes "buffer_ok f d" "blockBuffer f \<noteq> None" "current f \<noteq> 0"
    and "FileFlagWritable \<notin> flags f"
    and "can_advance d (current f, blockInChunk f)"
  shows "\<exists>g e. Read_bulk_advance f d = Inr (False, g, e)
           \<and> (current g, blockInChunk g) = next_block d (current f, blockInChunk f)
           \<and> FileFlagWritable \<notin> flags g \<and> same_driver e d"
proof -
  have fl: "Flush f e = Inr (logCall (CallEndOfFile (current f)) e)" for e
    using assms(2-4) by (intro Flush_readonly) simp_all
  from assms(5) have adv: "\<not> drvEndOfFile d (current f)"
    "blockInChunk f + 1 \<ge> drvBlocksPerNode d (current f)
       \<Longrightarrow> \<not> drvEndOfFile d (drvNextChunk d (current f))"
    by (auto simp: can_advance_def split: if_splits)
  show ?thesis
  proof (cases "blockInChunk f + 1 \<ge> drvBlocksPerNode d (current f)")
    case True
    with adv assms(3,4) fl show ?thesis
      by (simp add: Read_bulk_advance_def Driver_EndOfFile_def GetBlocksPerNode_def
          GetNextChunk_def Let_def next_block_def)
  next
    case False
    with adv assms(3,4) fl show ?thesis
      by (simp add: Read_bulk_advance_def Driver_EndOfFile_def GetBlocksPerNode_def
          GetNextChunk_def Let_def next_block_def)
  qed
qed

lemma bulk_copy_full:
  assumes "buffer_ok g e" "blockBuffer g \<noteq> None" "unat (fsize g) < 4294967296"
    and "k < n" and "unat (positionInFile g) + (unat n - unat k) \<le> unat (fsize g)"
  shows "\<exists>dest2 blk. Read_bulk_copy g e dest k n =
           Inr (dest2, k + min (n - k) (blockSize g),
                g\<lparr>blockBuffer := Some blk, positionInBuffer := min (n - k) (blockSize g)\<rparr>,
                logCall (CallReadBlock (current g + blockInChunk g)) e)"
proof -
  from assms(4) have "k \<le> n" by simp
  with assms(4) have nk: "0 < unat n - unat k" "unat (n - k) = unat n - unat k"
    by (simp_all add: word_less_nat_alt unat_uint_sub)
  with assms(5) have lt: "unat (positionInFile g) < unat (fsize g)" by simp
  then have wlt: "positionInFile g < fsize g" by (simp add: word_less_nat_alt)
  have total: "unat (ucast (fsize g - positionInFile g) :: uint)
                 = unat (fsize g) - unat (positionInFile g)"
    using lt assms(3) by (rule unat_remaining)
  define c0 where "c0 = min (n - k) (blockSize g)"
  define total :: uint where "total = ucast (fsize g - positionInFile g)"
  have "unat c0 \<le> unat (n - k)" by (simp add: unat_uint_min c0_def)
  with total nk assms(5) have nc: "\<not> c0 > total"
    by (simp add: word_less_nat_alt total_def)
  note eq = Read_bulk_copy_eq [OF assms(1,2) wlt, of dest k n, unfolded Let_def,
      folded c0_def total_def]
  have "\<exists>dest2 blk. Read_bulk_copy g e dest k n =
           Inr (dest2, k + c0, g\<lparr>blockBuffer := Some blk, positionInBuffer := c0\<rparr>,
                logCall (CallReadBlock (current g + blockInChunk g)) e)"
    unfolding eq by (simp only: nc if_False) blast
  then show ?thesis by (simp only: c0_def)
qed


lemma bulk_loop_complete:
  assumes "buffer_ok f d" "blockBuffer f \<noteq> None" "FileFlagWritable \<notin> flags f"
    and "(current f, blockInChunk f) = block_at d node j"
    and "unat (positionInFile f) = j * unat (blockSize f)"
    and "positionInBuffer f = blockSize f"
    and "unat (fsize f) < 4294967296"
    and "chain_covers d node ((unat (fsize f) - 1) div unat (blockSize f))"
    and "k \<le> n"
    and "Suc j * unat (blockSize f) + (unat n - unat k) \<le> unat (fsize f)"
  shows "\<exists>dest1 f1 d1. Read_bulk_loop f d dest k n = Some (Inr (dest1, n, f1, d1))"
  using assms
proof (induction "unat n - unat k" arbitrary: f d dest k j rule: less_induct)
  case less
  note ok = less.prems(1) and buf = less.prems(2) and wr = less.prems(3)
    and cb = less.prems(4) and pf = less.prems(5) and full = less.prems(6)
    and small = less.prems(7) and chain = less.prems(8) and kn = less.prems(9)
    and fit = less.prems(10)
  define B where "B = unat (blockSize f)"
  show ?case
  proof (cases "k = n")
    case True
    then show ?thesis by (simp add: Read_bulk_loop.simps [of f d dest n n])
  next
    case False
    with kn have lt: "k < n" by simp
    then have nk: "0 < unat n - unat k" by (simp add: word_less_nat_alt)
    from kn have kn': "unat k \<le> unat n" by (simp add: word_le_nat_alt)
    from ok have B0: "0 < B" by (auto simp: buffer_ok_def B_def word_less_nat_alt)
    have pos: "position f = j * B + B" by (simp add: position_def pf full B_def)
    with fit nk have posl: "position f < unat (fsize f)" by (simp add: B_def)
    then have "position f \<le> unat (fsize f)" by simp
    from wcond_position [OF this] posl
    have wc: "ucast (positionInBuffer f) + positionInFile f < fsize f" by simp
    from posl pos have "Suc j \<le> (unat (fsize f) - 1) div B"
      using B0 by (intro next_block_index) simp_all
    then have jJ: "j < (unat (fsize f) - 1) div B" by simp
    from chain_covers_node [OF chain, of j] jJ cb [symmetric] have cur: "current f \<noteq> 0"
      by (simp add: B_def)
    from chain_covers_advance [OF chain, of j] jJ cb [symmetric]
    have adv: "can_advance d (current f, blockInChunk f)" by (simp add: B_def)
    from bulk_advance_next [OF ok buf cur wr adv] obtain g e where
      a: "Read_bulk_advance f d = Inr (False, g, e)"
      "(current g, blockInChunk g) = next_block d (current f, blockInChunk f)"
      "FileFlagWritable \<notin> flags g" "same_driver e d"
      by blast
    from Read_bulk_advance_frame [OF a(1)] cur
    have fr: "fsize g = fsize f" "blockSize g = blockSize f" "blockBuffer g = blockBuffer f"
      "positionInFile g = positionInFile f + ucast (blockSize f)"
      by simp_all
    from Read_bulk_advance_ok [OF ok] a(1) have okg: "buffer_ok g e" by auto
    from buf fr(3) have bufg: "blockBuffer g \<noteq> None" by simp
    have pfg: "unat (positionInFile g) = Suc j * B"
      unfolding fr(4) using pf posl small pos
      by (subst unat_advance) (simp_all add: B_def position_def)
    from small fr(1) have smallg: "unat (fsize g) < 4294967296" by simp
    from fit pfg fr(1) have fitg: "unat (positionInFile g) + (unat n - unat k) \<le> unat (fsize g)"
      by (simp add: B_def)
    define c where "c = min (n - k) (blockSize g)"
    from bulk_copy_full [OF okg bufg smallg lt fitg, of dest] obtain dest2 blk where
      cp: "Read_bulk_copy g e dest k n =
             Inr (dest2, k + c, g\<lparr>blockBuffer := Some blk, positionInBuffer := c\<rparr>,
                  logCall (CallReadBlock (current g + blockInChunk g)) e)"
      unfolding c_def by blast
    define f2 where "f2 = g\<lparr>blockBuffer := Some blk, positionInBuffer := c\<rparr>"
    define d2 where "d2 = logCall (CallReadBlock (current g + blockInChunk g)) e"
    from Read_bulk_copy_ok [OF okg bufg, of dest k n] cp
    have ok2: "buffer_ok f2 d2" "blockBuffer f2 \<noteq> None" by (auto simp: f2_def d2_def)
    have body: "Read_bulk_body f d dest k n = Inr (False, dest2, k + c, f2, d2)"
      by (simp add: Read_bulk_body_def a(1) cp f2_def d2_def)
    have loop: "Read_bulk_loop f d dest k n = Read_bulk_loop f2 d2 dest2 (k + c) n"
      by (subst Read_bulk_loop.simps) (simp add: lt wc body)
    have uc: "unat c = min (unat n - unat k) B"
      using kn by (simp add: c_def unat_uint_min unat_uint_sub fr(2) B_def)
    have kc: "unat (k + c) = unat k + unat c"
      using uc kn' unat_uint_bound [of n] by (intro unat_uint_add) linarith
    show ?thesis
    proof (cases "unat n - unat k \<le> B")
      case True
      with uc kc kn' have "unat (k + c) = unat n" by simp
      then have "k + c = n" by (simp only: word_unat_eq_iff)
      then show ?thesis by (simp add: loop Read_bulk_loop.simps [of f2 d2 dest2 n n])
    next
      case False
      with uc have ucB: "unat c = B" by simp
      then have cB: "c = blockSize f2" by (simp add: word_unat_eq_iff f2_def fr(2) B_def)
      have meas: "unat n - unat (k + c) < unat n - unat k" using kc ucB B0 nk by simp
      have wr2: "FileFlagWritable \<notin> flags f2" using a(3) by (simp add: f2_def)
      have sd2: "same_driver d2 d" using a(4) by (simp add: d2_def)
      have cb2: "(current f2, blockInChunk f2) = block_at d2 node (Suc j)"
        unfolding same_driver_block_at [OF sd2] using a(2) cb by (simp add: f2_def)
      have pf2: "unat (positionInFile f2) = Suc j * unat (blockSize f2)"
        using pfg by (simp add: f2_def fr(2) B_def)
      have full2: "positionInBuffer f2 = blockSize f2" using cB by (simp add: f2_def)
      have small2: "unat (fsize f2) < 4294967296" using smallg by (simp add: f2_def)
      have chain2: "chain_covers d2 node ((unat (fsize f2) - 1) div unat (blockSize f2))"
        using chain by (simp add: same_driver_chain_covers [OF sd2] f2_def fr)
      have kn2: "k + c \<le> n" using kc ucB False kn' by (simp add: word_le_nat_alt)
      have fit2: "Suc (Suc j) * unat (blockSize f2) + (unat n - unat (k + c)) \<le> unat (fsize f2)"
        using fit kc ucB False by (simp add: f2_def fr B_def)
      from less.hyps [OF meas ok2 wr2 cb2 pf2 full2 small2 chain2 kn2 fit2, of dest2]
      show ?thesis by (simp add: loop)
    qed
  qed
qed


lemma bulk_first_full:
  assumes "buffer_ok f d" "blockBuffer f = Some buf"
    and "unat (fsize f) < 4294967296"
    and "position f + unat n \<le> unat (fsize f)"
  shows "\<exists>dest0. Read_bulk_first f buf n =
           Inr (dest0, min n (blockSize f - positionInBuffer f),
                f\<lparr>positionInBuffer :=
                     positionInBuffer f + min n (blockSize f - positionInBuffer f)\<rparr>)"
proof -
  from assms(4) have le: "position f \<le> unat (fsize f)" by simp
  define total :: uint where
    "total = (if ucast (positionInBuffer f) + positionInFile f < fsize f
              then ucast (fsize f - (ucast (positionInBuffer f) + positionInFile f)) else 0)"
  define k0 where "k0 = min n (blockSize f - positionInBuffer f)"
  have w: "unat (ucast (positionInBuffer f) + positionInFile f) = position f"
    using le unat_size_bound [of "fsize f"] by (intro position_word) simp
  have total: "unat total = unat (fsize f) - position f"
  proof (cases "position f < unat (fsize f)")
    case True
    with wcond_position [OF le]
    have "total = ucast (fsize f - (ucast (positionInBuffer f) + positionInFile f))"
      by (simp add: total_def)
    moreover have "unat (ucast (fsize f - (ucast (positionInBuffer f) + positionInFile f)) :: uint)
                     = unat (fsize f) - unat (ucast (positionInBuffer f) + positionInFile f)"
      using True w assms(3) by (intro unat_remaining) simp_all
    ultimately show ?thesis by (simp add: w)
  next
    case False
    with wcond_position [OF le] le show ?thesis by (simp add: total_def)
  qed
  have "unat k0 \<le> unat n" by (simp add: k0_def unat_uint_min)
  with total assms(4) have nc: "\<not> k0 > total" by (simp add: word_less_nat_alt)
  have r: "Read_bulk_first f buf n =
        (case memcpy_from buf (positionInBuffer f) (if k0 > total then total else k0) of
           Inl e \<Rightarrow> Inl e
         | Inr dest \<Rightarrow> Inr (dest, (if k0 > total then total else k0),
               f\<lparr>positionInBuffer := positionInBuffer f + (if k0 > total then total else k0)\<rparr>))"
    unfolding Read_bulk_first_def Let_def k0_def total_def ..
  from Read_bulk_first_ok [OF assms(1,2), of n] obtain dest k f1 where
    "Read_bulk_first f buf n = Inr (dest, k, f1)" by blast
  with r nc have "Read_bulk_first f buf n =
      Inr (dest, k0, f\<lparr>positionInBuffer := positionInBuffer f + k0\<rparr>)"
    by (simp only: if_False split: sum.splits) auto
  then show ?thesis unfolding k0_def by blast
qed

lemma bulk_read_complete:
  assumes "buffer_ok f d" "blockBuffer f \<noteq> None" "FileFlagWritable \<notin> flags f"
    and "(current f, blockInChunk f) = block_at d node j"
    and "unat (positionInFile f) = j * unat (blockSize f)"
    and "unat (fsize f) < 4294967296"
    and "chain_covers d node ((unat (fsize f) - 1) div unat (blockSize f))"
    and "position f + unat n \<le> unat (fsize f)"
  shows "\<exists>dest f1 d1. Read_bulk f d n = Some (Inr (dest, n, f1, d1))"
proof -
  from assms(2) obtain buf where buf: "blockBuffer f = Some buf" by auto
  define k0 where "k0 = min n (blockSize f - positionInBuffer f)"
  define f0 where "f0 = f\<lparr>positionInBuffer := positionInBuffer f + k0\<rparr>"
  from bulk_first_full [OF assms(1) buf assms(6,8)] obtain dest0 where
    first: "Read_bulk_first f buf n = Inr (dest0, k0, f0)"
    unfolding k0_def f0_def by blast
  from Read_bulk_first_ok [OF assms(1) buf, of n] first
  have ok0: "buffer_ok f0 d" "blockBuffer f0 \<noteq> None" by auto
  from assms(1) have ple: "positionInBuffer f \<le> blockSize f" by (auto simp: buffer_ok_def)
  then have sub: "unat (blockSize f - positionInBuffer f)
                    = unat (blockSize f) - unat (positionInBuffer f)"
    by (rule unat_uint_sub)
  from ple have pb: "unat (positionInBuffer f) \<le> unat (blockSize f)" by (simp add: word_le_nat_alt)
  have uk: "unat k0 = min (unat n) (unat (blockSize f) - unat (positionInBuffer f))"
    by (simp add: k0_def unat_uint_min sub)
  have kn: "k0 \<le> n" by (simp add: k0_def)
  have "\<exists>dest1 f1 d1. Read_bulk_loop f0 d dest0 k0 n = Some (Inr (dest1, n, f1, d1))"
  proof (cases "k0 = n")
    case True
    then show ?thesis by (simp add: Read_bulk_loop.simps [of f0 d dest0 n n])
  next
    case False
    with kn have "k0 < n" by simp
    then have "unat k0 < unat n" by (simp add: word_less_nat_alt)
    with uk have ukb: "unat k0 = unat (blockSize f) - unat (positionInBuffer f)" by simp
    have "unat (positionInBuffer f + k0) = unat (positionInBuffer f) + unat k0"
      using ukb pb unat_uint_bound [of "blockSize f"] by (intro unat_uint_add) linarith
    with ukb pb have "unat (positionInBuffer f0) = unat (blockSize f0)" by (simp add: f0_def)
    then have full: "positionInBuffer f0 = blockSize f0" by (simp only: word_unat_eq_iff)
    have fit: "Suc j * unat (blockSize f0) + (unat n - unat k0) \<le> unat (fsize f0)"
      using assms(5,8) ukb pb \<open>unat k0 < unat n\<close> by (simp add: f0_def position_def)
    from bulk_loop_complete [OF ok0 _ _ _ full _ _ kn fit, of node dest0] assms(3-7)
    show ?thesis by (simp add: f0_def)
  qed
  with buf first show ?thesis by (auto simp: Read_bulk_def)
qed

lemma unloaded_wcond:
  assumes "unloaded f" "0 < blockSize f" "unat (blockSize f) \<le> unat (fsize f)"
  shows "ucast (positionInBuffer f) + positionInFile f < fsize f"
proof -
  from assms(1) have e: "ucast (positionInBuffer f) + positionInFile f
                           = (ucast (blockSize f) :: TFileSize) - 1"
    by (simp add: unloaded_def)
  from assms(2) have "0 < unat (ucast (blockSize f) :: TFileSize)"
    by (simp add: unat_ucast_up word_less_nat_alt)
  then have "(ucast (blockSize f) :: TFileSize) \<noteq> 0" by (auto simp: unat_eq_0)
  then have "unat ((ucast (blockSize f) :: TFileSize) - 1) = unat (blockSize f) - 1"
    by (simp add: unat_minus_one unat_ucast_up)
  with assms(2,3) show ?thesis
    by (simp add: e word_less_nat_alt)
qed

lemma bulk_read_fresh_complete:
  assumes "fresh f d" "unat (blockSize f) \<le> unat (fsize f)"
    and "unat (fsize f) < 4294967296"
    and "chain_covers d (firstNode f) ((unat (fsize f) - 1) div unat (blockSize f))"
    and "unat n \<le> unat (fsize f)"
  shows "\<exists>dest f1 d1. Read_bulk f d n = Some (Inr (dest, n, f1, d1))"
proof -
  from assms(1) have ok: "buffer_ok f d" and bufn: "blockBuffer f \<noteq> None"
    and un: "unloaded f" and bic: "blockInChunk f = 0"
    and wr: "FileFlagWritable \<notin> flags f"
    by (auto simp: fresh_def)
  from un have cur: "current f = 0" and full: "positionInBuffer f = blockSize f"
    by (simp_all add: unloaded_def)
  from bufn obtain buf where buf: "blockBuffer f = Some buf" by auto
  from ok have bs0: "0 < blockSize f" by (auto simp: buffer_ok_def)
  have first: "Read_bulk_first f buf n = Inr ([], 0, f)"
    by (simp add: Read_bulk_first_def Let_def memcpy_from_def full)
  have "\<exists>dest1 f1 d1. Read_bulk_loop f d [] 0 n = Some (Inr (dest1, n, f1, d1))"
  proof (cases "n = 0")
    case True
    then show ?thesis by (simp add: Read_bulk_loop.simps [of f d "[]" 0 0])
  next
    case False
    then have lt: "0 < n" by (simp add: word_neq_0_conv)
    define g where "g = f\<lparr>current := firstNode f, positionInFile := 0\<rparr>"
    have a: "Read_bulk_advance f d = Inr (False, g, d)"
      by (simp add: Read_bulk_advance_def cur g_def)
    have okg: "buffer_ok g d" "blockBuffer g \<noteq> None" using ok bufn by (simp_all add: g_def)
    have smallg: "unat (fsize g) < 4294967296" using assms(3) by (simp add: g_def)
    have fitg: "unat (positionInFile g) + (unat n - unat (0 :: uint)) \<le> unat (fsize g)"
      using assms(5) by (simp add: g_def)
    define c where "c = min n (blockSize g)"
    from bulk_copy_full [OF okg smallg lt fitg, of "[]"] obtain dest2 blk where
      cp: "Read_bulk_copy g d [] 0 n =
             Inr (dest2, c, g\<lparr>blockBuffer := Some blk, positionInBuffer := c\<rparr>,
                  logCall (CallReadBlock (current g + blockInChunk g)) d)"
      unfolding c_def by auto
    define f2 where "f2 = g\<lparr>blockBuffer := Some blk, positionInBuffer := c\<rparr>"
    define d2 where "d2 = logCall (CallReadBlock (current g + blockInChunk g)) d"
    from Read_bulk_copy_ok [OF okg, of "[]" 0 n] cp
    have ok2: "buffer_ok f2 d2" "blockBuffer f2 \<noteq> None" by (auto simp: f2_def d2_def)
    have body: "Read_bulk_body f d [] 0 n = Inr (False, dest2, c, f2, d2)"
      by (simp add: Read_bulk_body_def a cp f2_def d2_def)
    from unloaded_wcond [OF un bs0 assms(2)]
    have loop: "Read_bulk_loop f d [] 0 n = Read_bulk_loop f2 d2 dest2 c n"
      by (subst Read_bulk_loop.simps) (simp add: lt body)
    have uc: "unat c = min (unat n) (unat (blockSize f))"
      by (simp add: c_def unat_uint_min g_def)
    have cn: "c \<le> n" by (simp add: c_def)
    show ?thesis
    proof (cases "c = n")
      case True
      then show ?thesis by (simp add: loop Read_bulk_loop.simps [of f2 d2 dest2 n n])
    next
      case False
      with cn uc have ucB: "unat c = unat (blockSize f)"
        by (auto simp: word_unat_eq_iff min_def split: if_splits)
      then have full2: "positionInBuffer f2 = blockSize f2"
        by (simp add: word_unat_eq_iff f2_def g_def)
      have sd2: "same_driver d2 d" by (simp add: d2_def)
      have wr2: "FileFlagWritable \<notin> flags f2" using wr by (simp add: f2_def g_def)
      have cb2: "(current f2, blockInChunk f2) = block_at d2 (firstNode f) 0"
        by (simp add: f2_def g_def bic)
      have pf2: "unat (positionInFile f2) = 0 * unat (blockSize f2)" by (simp add: f2_def g_def)
      have small2: "unat (fsize f2) < 4294967296" using assms(3) by (simp add: f2_def g_def)
      have chain2: "chain_covers d2 (firstNode f) ((unat (fsize f2) - 1) div unat (blockSize f2))"
        using assms(4) by (simp add: same_driver_chain_covers [OF sd2] f2_def g_def)
      have fit2: "Suc 0 * unat (blockSize f2) + (unat n - unat c) \<le> unat (fsize f2)"
        using assms(2,5) ucB uc by (simp add: f2_def g_def)
      from bulk_loop_complete [OF ok2 wr2 cb2 pf2 full2 small2 chain2 cn fit2, of dest2]
      show ?thesis by (simp add: loop)
    qed
  qed
  with buf first show ?thesis by (auto simp: Read_bulk_def)
qed


lemma bulk_read_fresh:
  assumes "fresh f d" "unat (drvBlockSize d) \<le> unat (fsize f)"
    and "unat (fsize f) < 4294967296"
    and "chain_covers d (firstNode f) ((unat (fsize f) - 1) div unat (drvBlockSize d))"
    and "unat n \<le> unat (fsize f)"
  shows "\<exists>f1 d1. Read_bulk f d n =
           Some (Inr (map (file_byte d (firstNode f)) [0..<unat n], n, f1, d1))"
proof -
  from assms(1) have ok: "buffer_ok f d" and un: "unloaded f" by (auto simp: fresh_def)
  then have bs: "blockSize f = drvBlockSize d" by (simp add: buffer_ok_def)
  from bulk_read_fresh_complete [OF assms(1) _ assms(3) _ assms(5)] assms(2,4) bs
  obtain dest f1 d1 where r: "Read_bulk f d n = Some (Inr (dest, n, f1, d1))" by auto
  from bulk_singles [OF ok assms(3) _ r] un obtain h e where
    s: "Read_n (unat n) f d = Inr (dest, h, e)" by auto
  have "dest = map (file_byte d (firstNode f)) [0..<unat n]"
  proof (cases "unat n = 0")
    case True
    with s show ?thesis by simp
  next
    case False
    then have "1 \<le> unat n" by simp
    from Read_n_fresh [OF assms(1) this assms(5,4)] s show ?thesis by auto
  qed
  with r show ?thesis by simp
qed

lemma bulk_read_seq:
  assumes "at_offset d0 f0 k f d" "1 \<le> k" "k + unat n \<le> unat (fsize f0)"
    and "unat (fsize f0) < 4294967296"
    and "chain_covers d0 (firstNode f0) ((unat (fsize f0) - 1) div unat (drvBlockSize d0))"
  shows "\<exists>f1 d1. Read_bulk f d n =
           Some (Inr (map (file_byte d0 (firstNode f0)) [k..<k + unat n], n, f1, d1))"
proof -
  define j where "j = (k - 1) div unat (drvBlockSize d0)"
  from assms(1) have ok: "buffer_ok f d" and sd: "same_driver d d0"
    and sz: "fsize f = fsize f0"
    and cb: "(current f, blockInChunk f) = block_at d0 (firstNode f0) j"
    and pf: "unat (positionInFile f) = j * unat (drvBlockSize d0)" and pos: "position f = k"
    and buf: "blockBuffer f \<noteq> None"
    and wr: "FileFlagWritable \<notin> flags f"
    by (simp_all add: at_offset_def j_def)
  from ok sd have bs: "blockSize f = drvBlockSize d0" by (simp add: buffer_ok_def same_driver_def)
  have cb': "(current f, blockInChunk f) = block_at d (firstNode f0) j"
    unfolding same_driver_block_at [OF sd] by (rule cb)
  have pf': "unat (positionInFile f) = j * unat (blockSize f)" using pf bs by simp
  have small: "unat (fsize f) < 4294967296" using assms(4) sz by simp
  have chain: "chain_covers d (firstNode f0) ((unat (fsize f) - 1) div unat (blockSize f))"
    using assms(5) by (simp add: same_driver_chain_covers [OF sd] sz bs)
  have fit: "position f + unat n \<le> unat (fsize f)" using assms(3) pos sz by simp
  from bulk_read_complete [OF ok buf wr cb' pf' small chain fit]
  obtain dest f1 d1 where r: "Read_bulk f d n = Some (Inr (dest, n, f1, d1))" by blast
  from fit have "unloaded f \<or> position f \<le> unat (fsize f)" by simp
  from bulk_singles [OF ok small this r] obtain h e where
    s: "Read_n (unat n) f d = Inr (dest, h, e)" by auto
  from Read_n_seq [OF assms(1,2,3,5)] s
  have "dest = map (file_byte d0 (firstNode f0)) [k..<k + unat n]" by auto
  with r show ?thesis by simp
qed

text \<open>
  Past the end of the file the two reads part: the bulk read clips the request at the
  size of the file, the single-byte read never looks at the size. On the file of
  20 bytes, with the cursor on offset 18, five single-byte reads return five bytes, the
  last three from behind the end of the file, and \<open>Read(buffer, 5)\<close> returns the two bytes
  that are left.
\<close>

lemma bulk_read_clipped_at_size:
  "(case demoAfter 20 18 of (f, d) \<Rightarrow>
      fsize f = 20 \<and> positionInFile f = 16 \<and> positionInBuffer f = 2
      \<and> map_option (map_sum id (\<lambda>(dest, k, f1, d1). (dest, k))) (Read_bulk f d 5)
          = Some (Inr ([28, 29], 2))
      \<and> map_sum id fst (Read_n 5 f d) = Inr [28, 29, 30, 31, 32])"
  by code_simp

text \<open>
  C1. Claim: for every \<open>N\<close> not exceeding the file size, \<open>N\<close> calls of \<open>Read()\<close> yield the
  same bytes as one \<open>Read(buffer, N)\<close> from the same cursor state. The code does not on a
  file shorter than one block that has just been constructed. The position in the file
  is then the sentinel \<open>TFileSize(-1)\<close> and the position in the buffer is the block size,
  so that the sum the tests of lines 196 and 212 compare with the size wraps around to
  the block size less 1. For a file of at least one block the sum is below the size and
  the loop loads the first block, as the lemma above has it; on the file of 2 bytes in
  blocks of 4 the sum is 3, the loop is not entered, and \<open>Read(buffer, 2)\<close> returns no
  byte and raises the end-of-file flag, where two calls of \<open>Read()\<close> return the two bytes
  of the file, 10 and 11. The same request on the file of 20 bytes returns them.
\<close>

theorem bulk_read_short_fresh_file:
  "fsize (demoFile 2) = 2 \<and> blockSize (demoFile 2) = 4
   \<and> positionInFile (demoFile 2) = - 1
   \<and> ucast (positionInBuffer (demoFile 2)) + positionInFile (demoFile 2) = (3 :: TFileSize)
   \<and> map_option (map_sum id (\<lambda>(dest, k, f1, d1). (dest, k, EndOfFile f1)))
        (Read_bulk (demoFile 2) demoDrv 2) = Some (Inr ([], 0, True))
   \<and> map_sum id fst (Read_n 2 (demoFile 2) demoDrv) = Inr [10, 11]
   \<and> map_option (map_sum id (\<lambda>(dest, k, f1, d1). (dest, k, EndOfFile f1)))
        (Read_bulk (demoFile 20) demoDrv 2) = Some (Inr ([10, 11], 2, False))"
  by code_simp

end
